theory Spec2Isabelle
  imports Complex_Main "HOL-Library.Log_Nat"
begin

section \<open>JavaScript numbers\<close>

text \<open>
  A JavaScript number is an IEEE 754 binary64 value. The finite ones are modelled by the
  rational they denote; \<open>fl\<close> rounds a rational to the nearest value with a 53-bit
  significand, ties to the even significand, which is what every arithmetic operation and
  every decimal literal of the language does. The exponent is not bounded here, so \<open>fl\<close>
  agrees with binary64 on magnitudes between \<open>2 powi (-1022)\<close> and \<open>2 powi 1024\<close>; all
  quantities of this program (byte counts, factors, percentages) are far inside that range.
\<close>

datatype number = NaN | NegInfinity | Fin rat

definition ilog2 :: "rat \<Rightarrow> int" where
  "ilog2 r = (if 1 \<le> r then bitlen \<lfloor>r\<rfloor> - 1 else - bitlen (\<lceil>1 / r\<rceil> - 1))"

definition round_half_even :: "rat \<Rightarrow> int" where
  "round_half_even s =
     (let f = \<lfloor>s\<rfloor>; d = s - of_int f
      in if d < 1 / 2 then f else if 1 / 2 < d then f + 1 else if even f then f else f + 1)"

definition fl_pos :: "rat \<Rightarrow> rat" where
  "fl_pos r = (let u = 2 powi (ilog2 r - 52) in of_int (round_half_even (r / u)) * u)"

definition fl :: "rat \<Rightarrow> rat" where
  "fl r = (if r = 0 then 0 else if r < 0 then - fl_pos (- r) else fl_pos r)"

definition fadd :: "rat \<Rightarrow> rat \<Rightarrow> rat" where
  "fadd a b = fl (a + b)"

definition fsub :: "rat \<Rightarrow> rat \<Rightarrow> rat" where
  "fsub a b = fl (a - b)"

definition fmul :: "rat \<Rightarrow> rat \<Rightarrow> rat" where
  "fmul a b = fl (a * b)"

definition fdiv :: "rat \<Rightarrow> rat \<Rightarrow> rat" where
  \<comment> \<open>only used with a divisor that is not zero\<close>
  "fdiv a b = fl (a / b)"

definition Math_round :: "rat \<Rightarrow> int" where
  \<comment> \<open>\<open>Math.round\<close>: the nearest integer, a tie going up\<close>
  "Math_round y = \<lfloor>y + 1 / 2\<rfloor>"

definition toFixed2 :: "rat \<Rightarrow> rat" where
  \<comment> \<open>the decimal that \<open>y.toFixed(2)\<close> prints: the nearest multiple of 1/100, a tie
      going away from zero (the sign is split off first)\<close>
  "toFixed2 y = (if y < 0 then - (of_int \<lfloor>- y * 100 + 1 / 2\<rfloor> / 100)
                 else of_int \<lfloor>y * 100 + 1 / 2\<rfloor> / 100)"

definition parseFloat_dec :: "rat \<Rightarrow> rat" where
  \<comment> \<open>\<open>parseFloat\<close> of a decimal string: the double nearest to the decimal\<close>
  "parseFloat_dec d = fl d"

section \<open>The estimator (ImageCompressor.tsx, lines 33-56)\<close>

datatype jsval = Undefined | NumberVal rat | ObjectVal

definition QUALITY_FACTORS :: "(string \<times> rat) list" where
  "QUALITY_FACTORS =
     [(''high'', fl (7 / 10)), (''medium'', fl (45 / 100)), (''low'', fl (25 / 100))]"

definition Object_prototype_keys :: "string list" where
  \<comment> \<open>the property names every object literal inherits; each holds a function or an
      object, never a number\<close>
  "Object_prototype_keys =
     [''constructor'', ''hasOwnProperty'', ''isPrototypeOf'', ''propertyIsEnumerable'',
      ''toLocaleString'', ''toString'', ''valueOf'', ''__proto__'', ''__defineGetter__'',
      ''__defineSetter__'', ''__lookupGetter__'', ''__lookupSetter__'']"

definition QUALITY_FACTORS_get :: "string \<Rightarrow> jsval" where
  \<comment> \<open>\<open>QUALITY_FACTORS[preset]\<close>: an own property, else an inherited one, else undefined\<close>
  "QUALITY_FACTORS_get preset =
     (case map_of QUALITY_FACTORS preset of
        Some f \<Rightarrow> NumberVal f
      | None \<Rightarrow> if preset \<in> set Object_prototype_keys then ObjectVal else Undefined)"

definition or_default :: "jsval \<Rightarrow> rat \<Rightarrow> jsval" where
  \<comment> \<open>\<open>v || d\<close>: undefined and 0 are falsy, an object is truthy\<close>
  "or_default v d =
     (case v of Undefined \<Rightarrow> NumberVal d
      | NumberVal f \<Rightarrow> if f = 0 then NumberVal d else NumberVal f
      | ObjectVal \<Rightarrow> ObjectVal)"

definition round_product :: "nat \<Rightarrow> jsval \<Rightarrow> number" where
  \<comment> \<open>\<open>Math.round(originalSize * v)\<close>: an object operand makes the product NaN\<close>
  "round_product originalSize v =
     (case v of NumberVal f \<Rightarrow> Fin (of_int (Math_round (fmul (of_nat originalSize) f)))
      | _ \<Rightarrow> NaN)"

definition custom_factor :: "int \<Rightarrow> rat" where
  "custom_factor customQuality =
     fadd (fl (1 / 10)) (fmul (fdiv (of_int customQuality) 100) (fl (6 / 10)))"

definition estimateSize :: "nat \<Rightarrow> string \<Rightarrow> int option \<Rightarrow> number" where
  \<comment> \<open>\<open>customQuality\<close> is \<open>None\<close> when the argument is absent; 0 is falsy as well\<close>
  "estimateSize originalSize preset customQuality =
     (case customQuality of
        Some q \<Rightarrow>
          if preset = ''custom'' \<and> q \<noteq> 0
          then round_product originalSize (NumberVal (custom_factor q))
          else round_product originalSize (or_default (QUALITY_FACTORS_get preset) (fl (45 / 100)))
      | None \<Rightarrow>
          round_product originalSize (or_default (QUALITY_FACTORS_get preset) (fl (45 / 100))))"

text \<open>The estimator as the specification words it, in exact arithmetic.\<close>

definition exact_round :: "rat \<Rightarrow> int" where
  "exact_round y = \<lfloor>y + 1 / 2\<rfloor>"

definition spec_estimate_preset :: "nat \<Rightarrow> rat \<Rightarrow> number" where
  "spec_estimate_preset sourceBytes factor = Fin (of_int (exact_round (of_nat sourceBytes * factor)))"

definition spec_estimate_custom :: "nat \<Rightarrow> int \<Rightarrow> number" where
  "spec_estimate_custom sourceBytes q =
     Fin (of_int (exact_round (of_nat sourceBytes * (1 / 10 + (of_int q / 100) * (6 / 10)))))"

section \<open>Records of the session (ImageCompressor.tsx, lines 8-31 and 41-46)\<close>

type_synonym bytes = "char list"

record File =
  file_name :: string
  file_content :: bytes

definition file_size :: "File \<Rightarrow> nat" where
  "file_size f = length (file_content f)"

datatype status = Pending | Compressing | Done | Error

record original_info =
  o_name :: string
  o_size :: nat
  o_width :: nat
  o_height :: nat
  o_format :: string

record compressed_info =
  c_size :: nat
  c_width :: nat
  c_height :: nat
  c_format :: string
  c_base64 :: string

record ImageFile =
  img_id :: string
  img_file :: File
  preview :: string
  status :: status
  originalSize :: nat
  estimatedSize :: "number option"
  original :: "original_info option"
  compressed :: "compressed_info option"
  compressionRatio :: "number option"
  error :: "string option"

datatype preset = High | Medium | Low | Custom

fun preset_key :: "preset \<Rightarrow> string" where
  "preset_key High = ''high''"
| "preset_key Medium = ''medium''"
| "preset_key Low = ''low''"
| "preset_key Custom = ''custom''"

text \<open>
  What a call of the compression endpoint carries (the form fields of lines 104-106) and
  what it resolves to: a thrown value (a transport failure) or a response, whose body in
  turn parses or throws.
\<close>

datatype thrown = ErrorObject string | OtherThrown

datatype 'a outcome = Throws thrown | Returns 'a

record api_result =
  r_original :: "original_info option"
  r_compressed :: "compressed_info option"
  r_compressionRatio :: "number option"

record response =
  ok :: bool
  json :: "api_result outcome"

record request =
  req_file :: File
  req_quality :: int
  req_format :: string

datatype call_event = RequestSent request | RequestSettled "response outcome"

text \<open>
  The component's state, together with three logs of what it did, oldest entry first:
  \<open>revoked\<close> lists every \<open>URL.revokeObjectURL\<close> call; \<open>calls\<close> lists every \<open>fetch\<close> to the
  compression endpoint when it is sent, with its request, and again when it has settled,
  with what it settled to; \<open>updates\<close> lists every list of records a batch has stored.
\<close>

record session =
  images :: "ImageFile list"
  quality :: int
  qualityPreset :: preset
  outputFormat :: string
  isCompressing :: bool
  isDownloading :: bool
  revoked :: "string list"
  calls :: "call_event list"
  updates :: "ImageFile list list"

definition initial_session :: session where
  "initial_session =
     \<lparr>images = [], quality = 70, qualityPreset = Medium, outputFormat = ''original'',
      isCompressing = False, isDownloading = False, revoked = [], calls = [], updates = []\<rparr>"

section \<open>Estimates and totals (lines 58-78, 92-99, 199-220)\<close>

definition estimate_effect :: "session \<Rightarrow> session" where
  \<comment> \<open>the body of the effect that depends on \<open>[qualityPreset, quality]\<close>\<close>
  "estimate_effect s =
     (if length (images s) > 0
      then s\<lparr>images := map (\<lambda>img. img\<lparr>estimatedSize :=
              Some (estimateSize (originalSize img) (preset_key (qualityPreset s)) (Some (quality s)))\<rparr>)
            (images s)\<rparr>
      else s)"

definition rerender :: "session \<Rightarrow> session \<Rightarrow> session" where
  \<comment> \<open>after a state change from \<open>old\<close> to \<open>new\<close> the effect runs when a dependency changed\<close>
  "rerender old new =
     (if qualityPreset new \<noteq> qualityPreset old \<or> quality new \<noteq> quality old
      then estimate_effect new else new)"

definition handleQualityPreset :: "preset \<Rightarrow> session \<Rightarrow> session" where
  "handleQualityPreset p s =
     rerender s (s\<lparr>qualityPreset := p,
                   quality := (case p of High \<Rightarrow> 90 | Medium \<Rightarrow> 70 | Low \<Rightarrow> 50 | Custom \<Rightarrow> quality s)\<rparr>)"

definition setQuality :: "int \<Rightarrow> session \<Rightarrow> session" where
  "setQuality q s = rerender s (s\<lparr>quality := q\<rparr>)"

definition new_image :: "session \<Rightarrow> string \<times> string \<times> File \<Rightarrow> ImageFile" where
  \<comment> \<open>the id drawn from \<open>Math.random\<close> and the object URL are inputs\<close>
  "new_image s x =
     (case x of (i, url, f) \<Rightarrow>
        \<lparr>img_id = i, img_file = f, preview = url, status = Pending, originalSize = file_size f,
         estimatedSize = Some (estimateSize (file_size f) (preset_key (qualityPreset s)) (Some (quality s))),
         original = None, compressed = None, compressionRatio = None, error = None\<rparr>)"

definition onDrop :: "(string \<times> string \<times> File) list \<Rightarrow> session \<Rightarrow> session" where
  "onDrop acceptedFiles s = s\<lparr>images := images s @ map (new_image s) acceptedFiles\<rparr>"

definition removeImage :: "string \<Rightarrow> session \<Rightarrow> session" where
  "removeImage i s = s\<lparr>images := filter (\<lambda>img. img_id img \<noteq> i) (images s)\<rparr>"

definition clearAll :: "session \<Rightarrow> session" where
  "clearAll s = s\<lparr>revoked := revoked s @ map preview (images s), images := []\<rparr>"

fun num_add :: "number \<Rightarrow> number \<Rightarrow> number" where
  "num_add (Fin a) (Fin b) = Fin (fadd a b)"
| "num_add NaN _ = NaN"
| "num_add _ NaN = NaN"
| "num_add NegInfinity _ = NegInfinity"
| "num_add _ NegInfinity = NegInfinity"

definition num_or_zero :: "number option \<Rightarrow> number" where
  \<comment> \<open>\<open>v || 0\<close> for an optional number: undefined, NaN and 0 are falsy\<close>
  "num_or_zero v = (case v of None \<Rightarrow> Fin 0 | Some NaN \<Rightarrow> Fin 0 | Some x \<Rightarrow> x)"

definition completedCount :: "ImageFile list \<Rightarrow> nat" where
  "completedCount imgs = length (filter (\<lambda>img. status img = Done) imgs)"

definition totalOriginalSize :: "ImageFile list \<Rightarrow> rat" where
  "totalOriginalSize imgs = foldl (\<lambda>acc img. fadd acc (of_nat (originalSize img))) 0 imgs"

definition totalEstimatedSize :: "ImageFile list \<Rightarrow> number" where
  "totalEstimatedSize imgs = foldl (\<lambda>acc img. num_add acc (num_or_zero (estimatedSize img))) (Fin 0) imgs"

definition totalCompressedSize :: "ImageFile list \<Rightarrow> rat" where
  "totalCompressedSize imgs =
     foldl (\<lambda>acc img. fadd acc (case compressed img of None \<Rightarrow> 0 | Some c \<Rightarrow> of_nat (c_size c))) 0
       (filter (\<lambda>img. status img = Done \<and> compressed img \<noteq> None) imgs)"

text \<open>The total of estimates as the specification words it, in exact arithmetic.\<close>

definition finite_value :: "number option \<Rightarrow> rat" where
  "finite_value v = (case v of Some (Fin x) \<Rightarrow> x | _ \<Rightarrow> 0)"

definition spec_totalEstimated :: "ImageFile list \<Rightarrow> rat" where
  "spec_totalEstimated imgs =
     sum_list (map (\<lambda>img. finite_value (estimatedSize img)) (filter (\<lambda>img. status img \<noteq> Done) imgs))
     + sum_list (map (\<lambda>img. case compressed img of None \<Rightarrow> 0 | Some c \<Rightarrow> of_nat (c_size c))
                  (filter (\<lambda>img. status img = Done) imgs))"

section \<open>The batch (ImageCompressor.tsx, lines 101-152)\<close>

text \<open>
  The network is an input: \<open>net n\<close> answers the \<open>n\<close>-th \<open>fetch\<close> of a batch. A call is an
  effect: \<open>await_fetch\<close> writes the request into the log when it is sent and the answer
  when it has settled, and only then does the caller go on.
\<close>

type_synonym network = "nat \<Rightarrow> request \<Rightarrow> response outcome"

definition compress_failed :: string where
  \<comment> \<open>the UTF-8 bytes of the message literal of lines 113 and 127\<close>
  "compress_failed =
     [CHR 0xE5, CHR 0x8E, CHR 0x8B, CHR 0xE7, CHR 0xBC, CHR 0xA9,
      CHR 0xE5, CHR 0xA4, CHR 0xB1, CHR 0xE8, CHR 0xB4, CHR 0xA5]"

definition caught :: "ImageFile \<Rightarrow> thrown \<Rightarrow> ImageFile" where
  "caught img t =
     img\<lparr>status := Error,
           error := Some (case t of ErrorObject m \<Rightarrow> m | OtherThrown \<Rightarrow> compress_failed)\<rparr>"

definition settle :: "ImageFile \<Rightarrow> response outcome \<Rightarrow> ImageFile" where
  "settle img fetched =
     (case fetched of
        Throws t \<Rightarrow> caught img t
      | Returns resp \<Rightarrow>
          if \<not> ok resp then caught img (ErrorObject compress_failed)
          else (case json resp of
                  Throws t \<Rightarrow> caught img t
                | Returns result \<Rightarrow>
                    img\<lparr>status := Done, original := r_original result,
                          compressed := r_compressed result,
                          compressionRatio := r_compressionRatio result\<rparr>))"

definition await_fetch ::
  "network \<Rightarrow> nat \<Rightarrow> request \<Rightarrow> call_event list \<Rightarrow> response outcome \<times> call_event list" where
  \<comment> \<open>\<open>await fetch(...)\<close> of line 108\<close>
  "await_fetch net n req evs =
     (let sent = evs @ [RequestSent req];
          fetched = net n req
      in (fetched, sent @ [RequestSettled fetched]))"

definition compressImage ::
  "network \<Rightarrow> nat \<Rightarrow> int \<Rightarrow> string \<Rightarrow> ImageFile \<Rightarrow> call_event list
     \<Rightarrow> ImageFile \<times> call_event list" where
  \<comment> \<open>lines 101-130: the record as it is returned, and the log of calls after it\<close>
  "compressImage net n q fmt img evs =
     (case await_fetch net n \<lparr>req_file = img_file img, req_quality = q, req_format = fmt\<rparr> evs of
        (fetched, evs1) \<Rightarrow> (settle img fetched, evs1))"

definition replace_by_id :: "ImageFile \<Rightarrow> ImageFile list \<Rightarrow> ImageFile list" where
  "replace_by_id c prev = map (\<lambda>img. if img_id img = img_id c then c else img) prev"

fun compress_loop :: "network \<Rightarrow> int \<Rightarrow> string \<Rightarrow> nat \<Rightarrow> ImageFile list \<Rightarrow> session \<Rightarrow> session" where
  "compress_loop net q fmt n [] s = s"
| "compress_loop net q fmt n (img # rest) s =
     (case compressImage net n q fmt img (calls s) of
        (c, evs) \<Rightarrow>
          (let s1 = s\<lparr>calls := evs\<rparr>;
               s2 = s1\<lparr>images := replace_by_id c (images s1),
                        updates := updates s1 @ [replace_by_id c (images s1)]\<rparr>
           in compress_loop net q fmt (Suc n) rest s2))"

definition eligible :: "ImageFile \<Rightarrow> bool" where
  "eligible img = (status img = Pending \<or> status img = Compressing)"

definition mark_compressing :: "ImageFile list \<Rightarrow> ImageFile list" where
  "mark_compressing prev =
     map (\<lambda>img. if status img = Pending then img\<lparr>status := Compressing\<rparr> else img) prev"

definition handleCompress :: "network \<Rightarrow> session \<Rightarrow> session" where
  "handleCompress net s =
     (if length (images s) = 0 then s
      else
        let s1 = s\<lparr>isCompressing := True\<rparr>;
            s2 = s1\<lparr>images := mark_compressing (images s1),
                     updates := updates s1 @ [mark_compressing (images s1)]\<rparr>;
            pendingImages = filter eligible (images s);
            s3 = compress_loop net (quality s) (outputFormat s) 0 pendingImages s2
        in s3\<lparr>isCompressing := False\<rparr>)"

fun in_flight :: "call_event list \<Rightarrow> int" where
  \<comment> \<open>the number of requests of a log that are sent and not yet settled\<close>
  "in_flight [] = 0"
| "in_flight (RequestSent req # es) = in_flight es + 1"
| "in_flight (RequestSettled fetched # es) = in_flight es - 1"

section \<open>The compression endpoint (route.ts)\<close>

record form_data =
  fd_file :: "File option"
  fd_quality :: "int option"
  fd_format :: "string option"

datatype encoder = Jpeg_mozjpeg | Png_level9 | Webp | Avif

record metadata =
  md_width :: "nat option"
  md_height :: "nat option"
  md_format :: "string option"

text \<open>
  The img library and the base64 encoder are inputs. \<open>fd_quality\<close> is what \<open>parseInt\<close>
  made of the form field, \<open>None\<close> for NaN.
\<close>

record sharp =
  sharp_metadata :: "bytes \<Rightarrow> metadata outcome"
  sharp_toBuffer :: "encoder \<Rightarrow> int \<Rightarrow> bytes \<Rightarrow> bytes outcome"
  to_base64 :: "bytes \<Rightarrow> string"

record success_body =
  b_original :: original_info
  b_compressed :: compressed_info
  b_compressionRatio :: number

datatype http_response = ErrorResponse nat string | SuccessResponse success_body

definition no_file_uploaded :: string where
  "no_file_uploaded =
     [CHR 0xE6, CHR 0xB2, CHR 0xA1, CHR 0xE6, CHR 0x9C, CHR 0x89, CHR 0xE4, CHR 0xB8, CHR 0x8A,
      CHR 0xE4, CHR 0xBC, CHR 0xA0, CHR 0xE6, CHR 0x96, CHR 0x87, CHR 0xE4, CHR 0xBB, CHR 0xB6]"

definition compression_failed_check_format :: string where
  "compression_failed_check_format =
     [CHR 0xE5, CHR 0x9B, CHR 0xBE, CHR 0xE7, CHR 0x89, CHR 0x87, CHR 0xE5, CHR 0x8E, CHR 0x8B,
      CHR 0xE7, CHR 0xBC, CHR 0xA9, CHR 0xE5, CHR 0xA4, CHR 0xB1, CHR 0xE8, CHR 0xB4, CHR 0xA5,
      CHR 0xEF, CHR 0xBC, CHR 0x8C, CHR 0xE8, CHR 0xAF, CHR 0xB7, CHR 0xE6, CHR 0xA3, CHR 0x80,
      CHR 0xE6, CHR 0x9F, CHR 0xA5, CHR 0xE6, CHR 0x96, CHR 0x87, CHR 0xE4, CHR 0xBB, CHR 0xB6,
      CHR 0xE6, CHR 0xA0, CHR 0xBC, CHR 0xE5, CHR 0xBC, CHR 0x8F, CHR 0xE6, CHR 0x98, CHR 0xAF,
      CHR 0xE5, CHR 0x90, CHR 0xA6, CHR 0xE6, CHR 0xAD, CHR 0xA3, CHR 0xE7, CHR 0xA1, CHR 0xAE]"

definition or_string :: "string option \<Rightarrow> string \<Rightarrow> string" where
  \<comment> \<open>\<open>v || d\<close> for an optional string: null, undefined and the empty string are falsy\<close>
  "or_string v d = (case v of None \<Rightarrow> d | Some x \<Rightarrow> if x = [] then d else x)"

definition or_nat :: "nat option \<Rightarrow> nat \<Rightarrow> nat" where
  "or_nat v d = (case v of None \<Rightarrow> d | Some x \<Rightarrow> if x = 0 then d else x)"

definition choose_encoder :: "string \<Rightarrow> encoder \<times> string" where
  \<comment> \<open>the \<open>switch\<close> of lines 32-61: the encoder, and \<open>outputFormat\<close> when it is left\<close>
  "choose_encoder output_format =
     (if output_format = ''jpeg'' \<or> output_format = ''jpg'' then (Jpeg_mozjpeg, ''jpeg'')
      else if output_format = ''png'' then (Png_level9, ''png'')
      else if output_format = ''webp'' then (Webp, ''webp'')
      else if output_format = ''avif'' then (Avif, ''avif'')
      else (Jpeg_mozjpeg, ''jpeg''))"

definition resolve_format :: "string option \<Rightarrow> string option \<Rightarrow> string" where
  \<comment> \<open>lines 9, 23 and 29: the value the \<open>switch\<close> is entered with\<close>
  "resolve_format form_format detected =
     (let format = or_string form_format ''original'';
          originalFormat = or_string detected ''unknown''
      in if format = ''original'' then originalFormat else format)"

definition route_compressionRatio :: "nat \<Rightarrow> nat \<Rightarrow> number" where
  \<comment> \<open>line 70 and line 92; a division by 0 gives NaN or an infinite quotient\<close>
  "route_compressionRatio compressed_size original_size =
     (if original_size = 0 then (if compressed_size = 0 then NaN else NegInfinity)
      else Fin (parseFloat_dec (toFixed2
             (fmul (fsub 1 (fdiv (of_nat compressed_size) (of_nat original_size))) 100))))"

definition server_error :: http_response where
  "server_error = ErrorResponse 500 compression_failed_check_format"

definition success :: "sharp \<Rightarrow> File \<Rightarrow> metadata \<Rightarrow> string \<Rightarrow> bytes \<Rightarrow> metadata \<Rightarrow> success_body" where
  \<comment> \<open>the body of lines 76-93\<close>
  "success lib f md output_format compressedBuffer cmd =
     \<lparr>b_original =
        \<lparr>o_name = file_name f, o_size = length (file_content f),
         o_width = or_nat (md_width md) 0, o_height = or_nat (md_height md) 0,
         o_format = or_string (md_format md) ''unknown''\<rparr>,
      b_compressed =
        \<lparr>c_size = length compressedBuffer,
         c_width = or_nat (md_width cmd) 0, c_height = or_nat (md_height cmd) 0,
         c_format = output_format,
         c_base64 = ''data:image/'' @ output_format @ '';base64,'' @ to_base64 lib compressedBuffer\<rparr>,
      b_compressionRatio = route_compressionRatio (length compressedBuffer) (length (file_content f))\<rparr>"

definition compress_file :: "sharp \<Rightarrow> int \<Rightarrow> string option \<Rightarrow> File \<Rightarrow> http_response" where
  \<comment> \<open>lines 15-93; every exception ends in the handler of lines 94-100\<close>
  "compress_file lib q form_format f =
     (case sharp_metadata lib (file_content f) of
        Throws t \<Rightarrow> server_error
      | Returns md \<Rightarrow>
          (case choose_encoder (resolve_format form_format (md_format md)) of
             (enc, output_format) \<Rightarrow>
               (case sharp_toBuffer lib enc q (file_content f) of
                  Throws t \<Rightarrow> server_error
                | Returns compressedBuffer \<Rightarrow>
                    (case sharp_metadata lib compressedBuffer of
                       Throws t \<Rightarrow> server_error
                     | Returns cmd \<Rightarrow>
                         SuccessResponse (success lib f md output_format compressedBuffer cmd)))))"

definition POST :: "sharp \<Rightarrow> form_data outcome \<Rightarrow> http_response" where
  "POST lib formData =
     (case formData of
        Throws t \<Rightarrow> server_error
      | Returns fd \<Rightarrow>
          (case fd_file fd of
             None \<Rightarrow> ErrorResponse 400 no_file_uploaded
           | Some f \<Rightarrow>
               compress_file lib
                 (case fd_quality fd of None \<Rightarrow> 80 | Some v \<Rightarrow> if v = 0 then 80 else v)
                 (fd_format fd) f))"

definition json_body :: "success_body \<Rightarrow> api_result" where
  \<comment> \<open>the body as the client parses it; JSON has no NaN and no infinity, they arrive as null\<close>
  "json_body b =
     \<lparr>r_original = Some (b_original b), r_compressed = Some (b_compressed b),
      r_compressionRatio = (case b_compressionRatio b of Fin x \<Rightarrow> Some (Fin x) | _ \<Rightarrow> None)\<rparr>"

definition over_http :: "http_response \<Rightarrow> response outcome" where
  \<comment> \<open>what \<open>fetch\<close> resolves to for an answer of the endpoint: status 200 is \<open>ok\<close>, and the
      body of an error answer has none of the three fields\<close>
  "over_http r =
     (case r of
        SuccessResponse b \<Rightarrow> Returns \<lparr>ok = True, json = Returns (json_body b)\<rparr>
      | ErrorResponse code m \<Rightarrow>
          Returns \<lparr>ok = False,
                   json = Returns \<lparr>r_original = None, r_compressed = None, r_compressionRatio = None\<rparr>\<rparr>)"

definition form_of :: "request \<Rightarrow> form_data" where
  \<comment> \<open>the form the endpoint reads for a request of the component: the file, the quality
      printed and parsed again, the format token\<close>
  "form_of req =
     \<lparr>fd_file = Some (req_file req), fd_quality = Some (req_quality req),
      fd_format = Some (req_format req)\<rparr>"

definition endpoint :: "sharp \<Rightarrow> network" where
  \<comment> \<open>the network when every call reaches this endpoint and its answer comes back\<close>
  "endpoint lib n req = over_http (POST lib (Returns (form_of req)))"

text \<open>The output encoding as the specification words it.\<close>

definition spec_output_encoding :: "string \<Rightarrow> string \<Rightarrow> string" where
  "spec_output_encoding token detected =
     (if token = ''original'' then detected
      else if token = ''jpeg'' \<or> token = ''jpg'' then ''jpeg''
      else if token = ''png'' \<or> token = ''webp'' \<or> token = ''avif'' then token
      else ''jpeg'')"

section \<open>The batch as the specification words it\<close>

text \<open>
  \<open>spec_batch\<close>: every eligible record, in array order, is replaced by the outcome of its
  own call, the \<open>n\<close>-th eligible record by the outcome of the \<open>n\<close>-th call, and every other
  record is left as it is. \<open>after_calls\<close> is what the loop does to one record of the list,
  \<open>failed\<close> tells a failed call (no response, a response that is not \<open>ok\<close>, a body that
  does not parse), \<open>request_of\<close> is the request sent for a record, and \<open>pair_events\<close> is
  the log in which each request is settled, to the answer of its own call, before the
  next one is sent.
\<close>

fun spec_batch :: "network \<Rightarrow> int \<Rightarrow> string \<Rightarrow> nat \<Rightarrow> ImageFile list \<Rightarrow> ImageFile list" where
  "spec_batch net q fmt n [] = []"
| "spec_batch net q fmt n (img # rest) =
     (if eligible img
      then settle img (net n \<lparr>req_file = img_file img, req_quality = q, req_format = fmt\<rparr>)
             # spec_batch net q fmt (Suc n) rest
      else img # spec_batch net q fmt n rest)"

fun after_calls :: "network \<Rightarrow> int \<Rightarrow> string \<Rightarrow> nat \<Rightarrow> ImageFile list \<Rightarrow> ImageFile \<Rightarrow> ImageFile" where
  "after_calls net q fmt n [] img = img"
| "after_calls net q fmt n (p # ps) img =
     after_calls net q fmt (Suc n) ps
       (if img_id img = img_id p
        then settle p (net n \<lparr>req_file = img_file p, req_quality = q, req_format = fmt\<rparr>)
        else img)"

definition failed :: "response outcome \<Rightarrow> bool" where
  "failed fetched =
     (case fetched of
        Throws t \<Rightarrow> True
      | Returns resp \<Rightarrow> \<not> ok resp \<or> (case json resp of Throws t \<Rightarrow> True | Returns r \<Rightarrow> False))"

definition request_of :: "session \<Rightarrow> ImageFile \<Rightarrow> request" where
  "request_of s img = \<lparr>req_file = img_file img, req_quality = quality s, req_format = outputFormat s\<rparr>"

fun pair_events :: "network \<Rightarrow> int \<Rightarrow> string \<Rightarrow> nat \<Rightarrow> ImageFile list \<Rightarrow> call_event list" where
  "pair_events net q fmt n [] = []"
| "pair_events net q fmt n (p # ps) =
     RequestSent \<lparr>req_file = img_file p, req_quality = q, req_format = fmt\<rparr>
     # RequestSettled (net n \<lparr>req_file = img_file p, req_quality = q, req_format = fmt\<rparr>)
     # pair_events net q fmt (Suc n) ps"

text \<open>
  The ratio as the specification words it, in exact arithmetic: the percentage saved,
  rounded to the nearest hundredth, a half going up.
\<close>

definition spec_compressionRatio :: "nat \<Rightarrow> nat \<Rightarrow> rat" where
  "spec_compressionRatio compressedBytes sourceBytes =
     of_int \<lfloor>(1 - (of_nat compressedBytes :: rat) / of_nat sourceBytes) * 100 * 100 + 1 / 2\<rfloor> / 100"

section \<open>Example inputs\<close>

definition gif_file :: File where
  "gif_file = \<lparr>file_name = ''a.gif'', file_content = ''GIF89a''\<rparr>"

definition gif_metadata :: metadata where
  "gif_metadata = \<lparr>md_width = Some 1, md_height = Some 1, md_format = Some ''gif''\<rparr>"

definition gif_library :: sharp where
  \<comment> \<open>a library that detects a GIF and encodes by returning its input\<close>
  "gif_library =
     \<lparr>sharp_metadata = (\<lambda>b. Returns gif_metadata),
      sharp_toBuffer = (\<lambda>enc q b. Returns b),
      to_base64 = (\<lambda>b. b)\<rparr>"

definition trimming_library :: "nat \<Rightarrow> sharp" where
  \<comment> \<open>a library that detects a GIF and encodes by keeping the first \<open>k\<close> bytes\<close>
  "trimming_library k =
     \<lparr>sharp_metadata = (\<lambda>b. Returns gif_metadata),
      sharp_toBuffer = (\<lambda>enc q b. Returns (take k b)),
      to_base64 = (\<lambda>b. b)\<rparr>"

definition upload_of :: "string \<Rightarrow> File \<Rightarrow> ImageFile" where
  \<comment> \<open>the record \<open>onDrop\<close> makes of a file under the initial settings\<close>
  "upload_of i f = new_image initial_session (i, ''blob:'' @ i, f)"

definition bytes_160 :: File where
  "bytes_160 = \<lparr>file_name = ''p.gif'', file_content = replicate 160 (CHR ''x'')\<rparr>"

definition gif_upload :: "string \<Rightarrow> form_data" where
  "gif_upload token = \<lparr>fd_file = Some gif_file, fd_quality = Some 70, fd_format = Some token\<rparr>"

definition done_record :: ImageFile where
  \<comment> \<open>a 20-byte upload, estimated at 9 bytes under \<open>medium\<close> and compressed to 6\<close>
  "done_record =
     \<lparr>img_id = ''a'',
      img_file = \<lparr>file_name = ''a.png'', file_content = ''01234567890123456789''\<rparr>,
      preview = ''blob:1'', status = Done, originalSize = 20,
      estimatedSize = Some (Fin 9), original = None,
      compressed = Some \<lparr>c_size = 6, c_width = 1, c_height = 1, c_format = ''png'', c_base64 = []\<rparr>,
      compressionRatio = Some (Fin 70), error = None\<rparr>"

definition done_session :: session where
  "done_session = initial_session\<lparr>images := [done_record]\<rparr>"

definition pending_record :: "string \<Rightarrow> ImageFile" where
  "pending_record i =
     \<lparr>img_id = i, img_file = \<lparr>file_name = i @ ''.png'', file_content = ''01234567890123456789''\<rparr>,
      preview = ''blob:'' @ i, status = Pending, originalSize = 20,
      estimatedSize = Some (Fin 9), original = None, compressed = None,
      compressionRatio = None, error = None\<rparr>"

definition two_pending :: session where
  "two_pending = initial_session\<lparr>images := [pending_record ''a'', pending_record ''b'']\<rparr>"

definition measured :: api_result where
  "measured =
     \<lparr>r_original = Some \<lparr>o_name = ''b.png'', o_size = 20, o_width = 1, o_height = 1, o_format = ''png''\<rparr>,
      r_compressed = Some \<lparr>c_size = 6, c_width = 1, c_height = 1, c_format = ''png'', c_base64 = []\<rparr>,
      r_compressionRatio = Some (Fin 70)\<rparr>"

definition first_call_fails :: network where
  "first_call_fails n req =
     (if n = 0 then Throws (ErrorObject ''Failed to fetch'')
      else Returns \<lparr>ok = True, json = Returns measured\<rparr>)"

section \<open>Rounding to a double: bounds, monotonicity, exactness on dyadic numbers\<close>

lemma powi_nat: "0 \<le> k \<Longrightarrow> (2::rat) powi k = 2 ^ nat k"
  by (simp add: power_int_def)

lemma ilog2_ge1:
  assumes "1 \<le> r"
  shows "2 powi (ilog2 r) \<le> r \<and> r < 2 powi (ilog2 r + 1)"
proof -
  define n where "n = \<lfloor>r\<rfloor>"
  have n1: "1 \<le> n" using assms by (simp add: n_def le_floor_iff)
  then have n0: "0 < n" by simp
  define b where "b = bitlen n"
  have bb: "2 ^ nat (b - 1) \<le> n" "n < 2 ^ nat b"
    using bitlen_bounds[OF n0] by (simp_all add: b_def)
  have b1: "1 \<le> b"
  proof (rule ccontr)
    assume "\<not> 1 \<le> b"
    then have "nat b = 0" by simp
    with bb(2) n1 show False by simp
  qed
  have e: "ilog2 r = b - 1" using assms by (simp add: ilog2_def b_def n_def)
  have "(2::rat) powi (b - 1) = of_int (2 ^ nat (b - 1))"
    using b1 by (simp add: powi_nat)
  also have "\<dots> \<le> of_int n" using bb(1) by (simp only: of_int_le_iff)
  also have "\<dots> \<le> r" by (simp add: n_def)
  finally have lo: "2 powi (b - 1) \<le> r" .
  have "r < of_int (n + 1)" using floor_correct[of r] by (simp add: n_def)
  also have "\<dots> \<le> of_int (2 ^ nat b)" using bb(2) by (simp only: of_int_le_iff)
  also have "\<dots> = 2 powi b" using b1 by (simp add: powi_nat)
  finally have hi: "r < 2 powi b" .
  show ?thesis using lo hi by (simp add: e)
qed

lemma ilog2_lt1:
  assumes "0 < r" "r < 1"
  shows "2 powi (ilog2 r) \<le> r \<and> r < 2 powi (ilog2 r + 1)"
proof -
  define m where "m = \<lceil>1 / r\<rceil> - 1"
  have "1 < 1 / r" using assms by simp
  then have "1 < \<lceil>1 / r\<rceil>" by (simp add: less_ceiling_iff)
  then have m1: "1 \<le> m" by (simp add: m_def)
  then have m0: "0 < m" by simp
  define b where "b = bitlen m"
  have bb: "2 ^ nat (b - 1) \<le> m" "m < 2 ^ nat b"
    using bitlen_bounds[OF m0] by (simp_all add: b_def)
  have b1: "1 \<le> b"
  proof (rule ccontr)
    assume "\<not> 1 \<le> b"
    then have "nat b = 0" by simp
    with bb(2) m1 show False by simp
  qed
  have e: "ilog2 r = - b" using assms by (simp add: ilog2_def b_def m_def)
  have up: "1 / r \<le> of_int (m + 1)" using ceiling_correct[of "1 / r"] by (simp add: m_def)
  have dn: "of_int m < 1 / r" using ceiling_correct[of "1 / r"] by (simp add: m_def)
  have "of_int (m + 1) \<le> (of_int (2 ^ nat b) :: rat)" using bb(2) by (simp only: of_int_le_iff)
  also have "\<dots> = 2 powi b" using b1 by (simp add: powi_nat)
  finally have "1 / r \<le> 2 powi b" using up by simp
  then have "1 \<le> r * 2 powi b" using assms(1) by (simp add: field_simps)
  then have lo: "2 powi (- b) \<le> r" by (simp add: power_int_minus field_simps)
  have "(2::rat) powi (b - 1) = of_int (2 ^ nat (b - 1))"
    using b1 by (simp add: powi_nat)
  also have "\<dots> \<le> of_int m" using bb(1) by (simp only: of_int_le_iff)
  also have "\<dots> < 1 / r" by (rule dn)
  finally have "r * 2 powi (b - 1) < 1" using assms(1) by (simp add: field_simps)
  moreover have "(2::rat) powi (- b + 1) * 2 powi (b - 1) = 1"
    using power_int_add[of "2::rat" "- b + 1" "b - 1"] by simp
  ultimately have "r * 2 powi (b - 1) < 2 powi (- b + 1) * 2 powi (b - 1)" by simp
  moreover have "0 < (2::rat) powi (b - 1)" by simp
  ultimately have hi: "r < 2 powi (- b + 1)" by (simp only: mult_less_cancel_right_pos)
  show ?thesis using lo hi by (simp add: e)
qed

lemma ilog2_bounds:
  assumes "0 < r"
  shows "2 powi (ilog2 r) \<le> r" "r < 2 powi (ilog2 r + 1)"
  using ilog2_ge1[of r] ilog2_lt1[of r] assms by (cases "1 \<le> r"; simp)+

lemma pow2_less_imp: "(2::rat) powi a < 2 powi b \<Longrightarrow> a < b"
  using power_int_increasing[of b a "2::rat"] by (cases "a < b") auto

lemma ilog2_unique:
  assumes "2 powi e \<le> r" "r < 2 powi (e + 1)"
  shows "ilog2 r = e"
proof -
  have r0: "0 < r" using assms(1) zero_less_power_int[of "2::rat" e] by linarith
  note b = ilog2_bounds[OF r0]
  have "(2::rat) powi (ilog2 r) < 2 powi (e + 1)" using b(1) assms(2) by linarith
  then have "ilog2 r < e + 1" by (rule pow2_less_imp)
  moreover have "(2::rat) powi e < 2 powi (ilog2 r + 1)" using b(2) assms(1) by linarith
  then have "e < ilog2 r + 1" by (rule pow2_less_imp)
  ultimately show ?thesis by simp
qed

lemma rhe_of_int: "round_half_even (of_int n) = n"
  by (simp add: round_half_even_def)

lemma rhe_between: "\<lfloor>s\<rfloor> \<le> round_half_even s \<and> round_half_even s \<le> \<lfloor>s\<rfloor> + 1"
  by (simp add: round_half_even_def Let_def)

lemma rhe_le: 
  assumes "s \<le> of_int n" shows "round_half_even s \<le> n"
proof (cases "s = of_int n")
  case True then show ?thesis by (simp add: rhe_of_int)
next
  case False
  with assms have "s < of_int n" by simp
  then have "\<lfloor>s\<rfloor> < n" by (simp add: floor_less_iff)
  with rhe_between[of s] show ?thesis by linarith
qed

lemma rhe_ge:
  assumes "of_int n \<le> s" shows "n \<le> round_half_even s"
proof -
  have "n \<le> \<lfloor>s\<rfloor>" using assms by (simp add: le_floor_iff)
  with rhe_between[of s] show ?thesis by linarith
qed

lemma rhe_mono:
  assumes "a \<le> b" shows "round_half_even a \<le> round_half_even b"
proof (cases "\<lfloor>a\<rfloor> = \<lfloor>b\<rfloor>")
  case True
  with assms show ?thesis by (auto simp: round_half_even_def Let_def)
next
  case False
  moreover have "\<lfloor>a\<rfloor> \<le> \<lfloor>b\<rfloor>" using assms by (rule floor_mono)
  ultimately have "\<lfloor>a\<rfloor> + 1 \<le> \<lfloor>b\<rfloor>" by simp
  with rhe_between[of a] rhe_between[of b] show ?thesis by linarith
qed

lemma rhe_err: "\<bar>of_int (round_half_even s) - s\<bar> \<le> 1 / 2"
proof -
  define f where "f = \<lfloor>s\<rfloor>"
  have fb: "of_int f \<le> s" "s < of_int f + 1" using floor_correct[of s] by (simp_all add: f_def)
  consider "s - of_int f < 1 / 2" | "1 / 2 < s - of_int f" | "s - of_int f = 1 / 2" by linarith
  then show ?thesis
  proof cases
    case 1
    then have "round_half_even s = f" by (simp add: round_half_even_def Let_def f_def)
    with 1 fb show ?thesis by simp
  next
    case 2
    then have "round_half_even s = f + 1" by (simp add: round_half_even_def Let_def f_def)
    with 2 fb show ?thesis by simp
  next
    case 3
    then have "round_half_even s = f \<or> round_half_even s = f + 1"
      by (simp add: round_half_even_def Let_def f_def)
    with 3 fb show ?thesis by auto
  qed
qed

lemma fl_pos_binade:
  assumes "2 powi e \<le> r" "r < 2 powi (e + 1)"
  shows "fl_pos r = of_int (round_half_even (r / 2 powi (e - 52))) * 2 powi (e - 52)"
  by (simp add: fl_pos_def Let_def ilog2_unique[OF assms])

lemma powi_split: "(2::rat) powi a = 2 powi (a - b) * 2 powi b"
  using power_int_add[of "2::rat" "a - b" b] by simp

lemma fl_pos_range:
  assumes "2 powi e \<le> r" "r < 2 powi (e + 1)"
  shows "2 powi e \<le> fl_pos r" "fl_pos r \<le> 2 powi (e + 1)"
proof -
  define u :: rat where "u = 2 powi (e - 52)"
  have u0: "0 < u" by (simp add: u_def)
  have e1: "(2::rat) powi e = of_int (2 ^ 52) * u"
    using powi_split[of e "e - 52"] by (simp add: u_def)
  have e2: "(2::rat) powi (e + 1) = of_int (2 ^ 53) * u"
    using powi_split[of "e + 1" "e - 52"] by (simp add: u_def)
  have "of_int (2 ^ 52) * u \<le> r" using assms(1) by (simp only: e1)
  then have "of_int (2 ^ 52) \<le> r / u" using u0 by (simp add: pos_le_divide_eq)
  then have "2 ^ 52 \<le> round_half_even (r / u)" by (rule rhe_ge)
  then have "(of_int (2 ^ 52) :: rat) \<le> of_int (round_half_even (r / u))"
    by (simp only: of_int_le_iff)
  then have "of_int (2 ^ 52) * u \<le> of_int (round_half_even (r / u)) * u"
    using u0 by (simp only: mult_le_cancel_right_pos)
  then show "2 powi e \<le> fl_pos r"
    by (simp add: fl_pos_binade[OF assms] e1 flip: u_def)
  have "r < of_int (2 ^ 53) * u" using assms(2) by (simp only: e2)
  then have "r / u \<le> of_int (2 ^ 53)" using u0 by (simp add: pos_divide_le_eq)
  then have "round_half_even (r / u) \<le> 2 ^ 53" by (rule rhe_le)
  then have "(of_int (round_half_even (r / u)) :: rat) \<le> of_int (2 ^ 53)"
    by (simp only: of_int_le_iff)
  then have "of_int (round_half_even (r / u)) * u \<le> of_int (2 ^ 53) * u"
    using u0 by (simp only: mult_le_cancel_right_pos)
  then show "fl_pos r \<le> 2 powi (e + 1)"
    by (simp add: fl_pos_binade[OF assms] e2 flip: u_def)
qed

lemma fl_pos_positive: "0 < r \<Longrightarrow> 0 < fl_pos r"
  using fl_pos_range(1)[OF ilog2_bounds, of r] zero_less_power_int[of "2::rat" "ilog2 r"]
  by linarith

lemma fl_pos_mono:
  assumes "0 < a" "a \<le> b"
  shows "fl_pos a \<le> fl_pos b"
proof -
  have b0: "0 < b" using assms by simp
  note ba = ilog2_bounds[OF assms(1)] and bb = ilog2_bounds[OF b0]
  have "(2::rat) powi (ilog2 a) < 2 powi (ilog2 b + 1)" using ba(1) bb(2) assms(2) by linarith
  then have le: "ilog2 a \<le> ilog2 b" using pow2_less_imp by fastforce
  show ?thesis
  proof (cases "ilog2 a = ilog2 b")
    case True
    define u :: rat where "u = 2 powi (ilog2 b - 52)"
    have u0: "0 < u" by (simp add: u_def)
    have "a / u \<le> b / u" using assms(2) u0 by (simp add: divide_right_mono)
    then have "round_half_even (a / u) \<le> round_half_even (b / u)" by (rule rhe_mono)
    then have "(of_int (round_half_even (a / u)) :: rat) \<le> of_int (round_half_even (b / u))"
      by (simp only: of_int_le_iff)
    then have "of_int (round_half_even (a / u)) * u \<le> of_int (round_half_even (b / u)) * u"
      using u0 by (simp only: mult_le_cancel_right_pos)
    then show ?thesis by (simp add: fl_pos_def Let_def True flip: u_def)
  next
    case False
    with le have "ilog2 a + 1 \<le> ilog2 b" by simp
    then have "(2::rat) powi (ilog2 a + 1) \<le> 2 powi (ilog2 b)"
      by (intro power_int_increasing) simp_all
    with fl_pos_range(2)[OF ba] fl_pos_range(1)[OF bb] show ?thesis by linarith
  qed
qed

lemma fl_mono:
  assumes "a \<le> b" shows "fl a \<le> fl b"
proof -
  consider "b < 0" | "b = 0" | "0 < b" "a \<le> 0" | "0 < a" by linarith
  then show ?thesis
  proof cases
    case 1
    then have "0 < - b" "- b \<le> - a" "a < 0" using assms by simp_all
    then show ?thesis using fl_pos_mono[of "- b" "- a"] 1 by (simp add: fl_def)
  next
    case 2
    then show ?thesis using assms fl_pos_positive[of "- a"] by (auto simp: fl_def)
  next
    case 3
    then show ?thesis using fl_pos_positive[of "- a"] fl_pos_positive[of b]
      by (auto simp: fl_def)
  next
    case 4
    then show ?thesis using assms fl_pos_mono[of a b] by (simp add: fl_def)
  qed
qed

lemma fl_pos_dyadic:
  assumes "0 < m" "m < 2 ^ 53"
  shows "fl_pos (of_int m * 2 powi k) = of_int m * 2 powi k"
proof -
  define r :: rat where "r = of_int m * 2 powi k"
  have r0: "0 < r" using assms(1) by (simp add: r_def)
  define e where "e = ilog2 r"
  note b = ilog2_bounds[OF r0, folded e_def]
  have "(of_int m :: rat) < of_int (2 ^ 53)" using assms(2) by (simp only: of_int_less_iff)
  then have "r < of_int (2 ^ 53) * 2 powi k" by (simp add: r_def)
  also have "\<dots> = 2 powi (53 + k)" using power_int_add[of "2::rat" 53 k] by simp
  finally have "(2::rat) powi e < 2 powi (53 + k)" using b(1) by linarith
  then have "e < 53 + k" by (rule pow2_less_imp)
  then have j: "0 \<le> k - (e - 52)" by simp
  define u :: rat where "u = 2 powi (e - 52)"
  have u0: "0 < u" by (simp add: u_def)
  have "(2::rat) powi k = 2 powi (k - (e - 52)) * u"
    unfolding u_def by (rule powi_split)
  also have "\<dots> = of_int (2 ^ nat (k - (e - 52))) * u" using j by (simp add: powi_nat)
  finally have "r = of_int (m * 2 ^ nat (k - (e - 52))) * u" by (simp add: r_def)
  then have ru: "r / u = of_int (m * 2 ^ nat (k - (e - 52)))" using u0 by simp
  have "fl_pos r = of_int (round_half_even (r / u)) * u"
    by (simp add: fl_pos_def Let_def e_def u_def)
  also have "\<dots> = r / u * u" by (simp only: ru rhe_of_int)
  also have "\<dots> = r" using u0 by simp
  finally show ?thesis by (simp add: r_def)
qed

lemma fl_dyadic:
  assumes "\<bar>m\<bar> < 2 ^ 53"
  shows "fl (of_int m * 2 powi k) = of_int m * 2 powi k"
proof -
  define r :: rat where "r = of_int m * 2 powi k"
  consider "m = 0" | "0 < m" | "m < 0" by linarith
  then have "fl r = r"
  proof cases
    case 1 then show ?thesis by (simp add: fl_def r_def)
  next
    case 2
    then have "0 < r" by (simp add: r_def)
    moreover have "fl_pos r = r" unfolding r_def using 2 assms by (intro fl_pos_dyadic) simp_all
    ultimately show ?thesis by (simp add: fl_def)
  next
    case 3
    then have "r < 0" by (simp add: r_def mult_neg_pos)
    moreover have "- r = of_int (- m) * 2 powi k" by (simp add: r_def)
    moreover have "fl_pos (of_int (- m) * 2 powi k) = of_int (- m) * 2 powi k"
      using 3 assms by (intro fl_pos_dyadic) simp_all
    ultimately show ?thesis by (simp add: fl_def)
  qed
  then show ?thesis by (simp add: r_def)
qed

lemma fl_of_int: "\<bar>m\<bar> < 2 ^ 53 \<Longrightarrow> fl (of_int m) = of_int m"
  using fl_dyadic[of m 0] by simp

lemma fl_of_nat: "n < 2 ^ 53 \<Longrightarrow> fl (of_nat n) = of_nat n"
  using fl_of_int[of "int n"] by simp

lemma fl_pos_err:
  assumes "0 < r"
  shows "\<bar>fl_pos r - r\<bar> \<le> r / 2 ^ 53"
proof -
  define e where "e = ilog2 r"
  define u :: rat where "u = 2 powi (e - 52)"
  have u0: "0 < u" by (simp add: u_def)
  note b = ilog2_bounds[OF assms, folded e_def]
  have eu: "(2::rat) powi e = 2 ^ 52 * u"
    using powi_split[of e "e - 52"] by (simp add: u_def)
  have "fl_pos r - r = (of_int (round_half_even (r / u)) - r / u) * u"
    using u0 by (simp add: fl_pos_def Let_def e_def u_def algebra_simps)
  then have "\<bar>fl_pos r - r\<bar> = \<bar>of_int (round_half_even (r / u)) - r / u\<bar> * u"
    using u0 by (simp add: abs_mult)
  also have "\<dots> \<le> 1 / 2 * u"
    using rhe_err[of "r / u"] u0 by (simp only: mult_le_cancel_right_pos)
  also have "\<dots> = 2 powi e / 2 ^ 53" by (simp add: eu)
  also have "\<dots> \<le> r / 2 ^ 53" using b(1) by (simp add: divide_right_mono)
  finally show ?thesis .
qed

lemma fl_err: "\<bar>fl r - r\<bar> \<le> \<bar>r\<bar> / 2 ^ 53"
proof -
  consider "r = 0" | "0 < r" | "r < 0" by linarith
  then show ?thesis
  proof cases
    case 1 then show ?thesis by (simp add: fl_def)
  next
    case 2 then show ?thesis using fl_pos_err[of r] by (simp add: fl_def)
  next
    case 3
    then have "\<bar>fl_pos (- r) - (- r)\<bar> \<le> (- r) / 2 ^ 53" by (intro fl_pos_err) simp
    then show ?thesis using 3 by (simp add: fl_def abs_if split: if_splits)
  qed
qed

lemma fl_eval:
  assumes "2 powi e \<le> r" "r < 2 powi (e + 1)"
  shows "fl r = of_int (round_half_even (r / 2 powi (e - 52))) * 2 powi (e - 52)"
proof -
  have "0 < r" using assms(1) zero_less_power_int[of "2::rat" e] by linarith
  then show ?thesis using fl_pos_binade[OF assms] by (simp add: fl_def)
qed

lemma rhe_nearest:
  assumes "\<bar>s - of_int m\<bar> < 1 / 2"
  shows "round_half_even s = m"
proof (cases "of_int m \<le> s")
  case True
  then have "\<lfloor>s\<rfloor> = m" using assms by (intro floor_unique) (simp_all add: abs_if)
  then show ?thesis using assms True by (simp add: round_half_even_def Let_def abs_if)
next
  case False
  then have "\<lfloor>s\<rfloor> = m - 1" using assms by (intro floor_unique) (simp_all add: abs_if split: if_splits)
  then show ?thesis using assms False by (simp add: round_half_even_def Let_def abs_if split: if_splits)
qed

lemma fl_eqI:
  assumes "2 powi e \<le> r" "r < 2 powi (e + 1)"
    and "\<bar>r / 2 powi (e - 52) - of_int m\<bar> < 1 / 2"
  shows "fl r = of_int m * 2 powi (e - 52)"
  by (simp add: fl_eval[OF assms(1,2)] rhe_nearest[OF assms(3)])

lemma fl_7_10: "fl (7 / 10) = 3152519739159347 / 4503599627370496"
  using fl_eqI[of "-1" "7 / 10" "6305039478318694"] by simp

lemma fl_45_100: "fl (45 / 100) = 8106479329266893 / 18014398509481984"
  using fl_eqI[of "-2" "45 / 100" "8106479329266893"] by simp

lemma fl_1_10: "fl (1 / 10) = 3602879701896397 / 36028797018963968"
  using fl_eqI[of "-4" "1 / 10" "7205759403792794"] by simp

lemma fl_6_10: "fl (6 / 10) = 5404319552844595 / 9007199254740992"
  using fl_eqI[of "-1" "6 / 10" "5404319552844595"] by simp

lemma fl_25_100: "fl (25 / 100) = 1 / 4"
  using fl_dyadic[of 1 "-2"] by simp

lemma Math_round_eqI: "of_int k - 1 / 2 \<le> y \<Longrightarrow> y < of_int k + 1 / 2 \<Longrightarrow> Math_round y = k"
  unfolding Math_round_def by (intro floor_unique) simp_all

section \<open>The estimator at its constants\<close>

lemma fl_9_20: "fl (9 / 20) = 8106479329266893 / 18014398509481984"
  using fl_45_100 by simp

lemma fl_1_4: "fl (1 / 4) = 1 / 4"
  using fl_25_100 by simp

lemma fl_3_5: "fl (3 / 5) = 5404319552844595 / 9007199254740992"
  using fl_6_10 by simp

lemma QUALITY_FACTORS_get_own:
  "QUALITY_FACTORS_get ''high'' = NumberVal (fl (7 / 10))"
  "QUALITY_FACTORS_get ''medium'' = NumberVal (fl (9 / 20))"
  "QUALITY_FACTORS_get ''low'' = NumberVal (1 / 4)"
  "QUALITY_FACTORS_get ''custom'' = Undefined"
  by (simp_all add: QUALITY_FACTORS_get_def QUALITY_FACTORS_def Object_prototype_keys_def fl_1_4)

lemma estimate_20_low: "estimateSize 20 ''low'' (Some 50) = Fin 5"
proof -
  have "fl (20 * (1 / 4)) = 5" using fl_of_int[of 5] by simp
  then have "Math_round (fmul 20 (1 / 4)) = 5"
    unfolding fmul_def by (intro Math_round_eqI) simp_all
  then show ?thesis
    by (simp add: estimateSize_def QUALITY_FACTORS_get_own or_default_def round_product_def)
qed

section \<open>The output encoding of the endpoint\<close>

lemma POST_format:
  assumes "POST lib (Returns fd) = SuccessResponse b"
  shows "\<exists>f md. fd_file fd = Some f \<and> sharp_metadata lib (file_content f) = Returns md \<and>
           c_format (b_compressed b) = snd (choose_encoder (resolve_format (fd_format fd) (md_format md)))"
  using assms
  by (auto simp: POST_def compress_file_def success_def server_error_def
           split: option.splits outcome.splits prod.splits)

text \<open>
  C9, as amended. Whenever the endpoint answers with success, the encoding it reports is
  the one the specification names if the target token is not \<open>original\<close> (an absent or
  empty token counts as \<open>original\<close>): \<open>jpeg\<close> for \<open>jpeg\<close> and \<open>jpg\<close>, the token itself for
  \<open>png\<close>, \<open>webp\<close> and \<open>avif\<close>, and \<open>jpeg\<close> for any other token. For the token \<open>original\<close> the
  detected source encoding goes through the same selection: it is kept when it is one of
  \<open>png\<close>, \<open>webp\<close>, \<open>avif\<close>, becomes \<open>jpeg\<close> when it is \<open>jpeg\<close> or \<open>jpg\<close>, and every other
  detected encoding (\<open>gif\<close> for one) is converted to \<open>jpeg\<close>.
\<close>

theorem output_encoding:
  assumes "POST lib (Returns fd) = SuccessResponse b"
    and "fd_file fd = Some f"
    and "sharp_metadata lib (file_content f) = Returns md"
    and "token = or_string (fd_format fd) ''original''"
    and "detected = or_string (md_format md) ''unknown''"
  shows "c_format (b_compressed b) =
           (if token \<noteq> ''original'' then spec_output_encoding token detected
            else if detected = ''jpeg'' \<or> detected = ''jpg'' then ''jpeg''
            else if detected = ''png'' \<or> detected = ''webp'' \<or> detected = ''avif'' then detected
            else ''jpeg'')"
  using POST_format[OF assms(1)] assms(2-)
  by (auto simp: choose_encoder_def resolve_format_def spec_output_encoding_def Let_def)

text \<open>An instance: a GIF upload with the target token \<open>png\<close> is answered with \<open>png\<close>.\<close>

theorem output_encoding_witness:
  "POST gif_library (Returns (gif_upload ''png''))
     = SuccessResponse (success gif_library gif_file gif_metadata ''png'' ''GIF89a'' gif_metadata)
   \<and> c_format (b_compressed
         (success gif_library gif_file gif_metadata ''png'' ''GIF89a'' gif_metadata)) = ''png''"
proof -
  let ?b = "success gif_library gif_file gif_metadata ''png'' ''GIF89a'' gif_metadata"
  have p: "POST gif_library (Returns (gif_upload ''png'')) = SuccessResponse ?b"
    by (simp add: POST_def compress_file_def gif_library_def gif_upload_def gif_file_def
          gif_metadata_def choose_encoder_def resolve_format_def or_string_def)
  have h1: "fd_file (gif_upload ''png'') = Some gif_file" by (simp add: gif_upload_def)
  have h2: "sharp_metadata gif_library (file_content gif_file) = Returns gif_metadata"
    by (simp add: gif_library_def)
  have h3: "''png'' = or_string (fd_format (gif_upload ''png'')) ''original''"
    by (simp add: gif_upload_def or_string_def)
  have h4: "''gif'' = or_string (md_format gif_metadata) ''unknown''"
    by (simp add: gif_metadata_def or_string_def)
  have "c_format (b_compressed ?b) = ''png''"
    using output_encoding[OF p h1 h2 h3 h4] by (simp add: spec_output_encoding_def)
  with p show ?thesis by simp
qed

text \<open>
  C9 as stated fails: for the token \<open>original\<close> and a source detected as \<open>gif\<close> the endpoint
  reports \<open>jpeg\<close>, where the claim names the detected encoding \<open>gif\<close>.
\<close>

theorem output_encoding_counterexample:
  "POST gif_library (Returns (gif_upload ''original''))
     = SuccessResponse (success gif_library gif_file gif_metadata ''jpeg'' ''GIF89a'' gif_metadata)
   \<and> c_format (b_compressed
         (success gif_library gif_file gif_metadata ''jpeg'' ''GIF89a'' gif_metadata)) = ''jpeg''
   \<and> spec_output_encoding ''original'' ''gif'' = ''gif''"
  by (simp add: POST_def compress_file_def success_def gif_library_def gif_upload_def gif_file_def
        gif_metadata_def choose_encoder_def resolve_format_def or_string_def
        spec_output_encoding_def)

section \<open>Removing records and releasing previews\<close>

text \<open>
  C3. Removing one record releases nothing: the log of \<open>URL.revokeObjectURL\<close> calls is the
  same before and after \<open>removeImage\<close>, for every id and every session. On the session that
  holds the one record \<open>a\<close> with preview \<open>blob:1\<close>, removing \<open>a\<close> empties the list and revokes
  nothing, whereas \<open>clearAll\<close> on the same session revokes \<open>blob:1\<close>.
\<close>

theorem removeImage_revokes_nothing:
  "revoked (removeImage i s) = revoked s
   \<and> images (removeImage ''a'' done_session) = []
   \<and> revoked (removeImage ''a'' done_session) = []
   \<and> revoked (clearAll done_session) = [''blob:1'']"
  by (simp add: removeImage_def clearAll_def done_session_def done_record_def initial_session_def)

section \<open>Recomputing the estimates\<close>

text \<open>
  C2, as amended. After a change of the preset or of the quality value, the estimate of
  every record is recomputed from its original size, the new preset and the new quality,
  whatever the status of the record, \<open>done\<close> included; the status, the measured result and
  the compression ratio of every record are unchanged.
\<close>

theorem estimates_recomputed_for_all:
  assumes "s' = handleQualityPreset p s \<or> s' = setQuality q s"
    and "qualityPreset s' \<noteq> qualityPreset s \<or> quality s' \<noteq> quality s"
  shows "images s' =
           map (\<lambda>img. img\<lparr>estimatedSize :=
                  Some (estimateSize (originalSize img) (preset_key (qualityPreset s')) (Some (quality s')))\<rparr>)
             (images s)
         \<and> map status (images s') = map status (images s)
         \<and> map compressed (images s') = map compressed (images s)
         \<and> map compressionRatio (images s') = map compressionRatio (images s)"
  using assms
  by (auto simp: handleQualityPreset_def setQuality_def rerender_def estimate_effect_def comp_def
           split: if_splits)

text \<open>An instance: selecting \<open>low\<close> in the session that holds one \<open>done\<close> record.\<close>

theorem estimates_recomputed_for_all_witness:
  "qualityPreset (handleQualityPreset Low done_session) \<noteq> qualityPreset done_session
   \<and> map status (images (handleQualityPreset Low done_session)) = [Done]
   \<and> map estimatedSize (images (handleQualityPreset Low done_session)) = [Some (Fin 5)]
   \<and> map compressed (images (handleQualityPreset Low done_session)) = map compressed (images done_session)"
proof -
  have q: "qualityPreset (handleQualityPreset Low done_session) = Low"
      "quality (handleQualityPreset Low done_session) = 50"
    by (simp_all add: handleQualityPreset_def rerender_def estimate_effect_def done_session_def
          initial_session_def)
  have i: "qualityPreset done_session = Medium" "images done_session = [done_record]"
    by (simp_all add: done_session_def initial_session_def)
  show ?thesis
    using estimates_recomputed_for_all[of "handleQualityPreset Low done_session" Low done_session 0]
    by (simp add: q i estimate_20_low done_record_def)
qed

text \<open>
  C2 as stated fails: a \<open>done\<close> record of 20 bytes with the estimate 9 has the estimate 5
  after the preset changes from \<open>medium\<close> to \<open>low\<close>.
\<close>

theorem done_record_is_reestimated:
  "map status (images done_session) = [Done]
   \<and> map estimatedSize (images done_session) = [Some (Fin 9)]
   \<and> map estimatedSize (images (handleQualityPreset Low done_session)) = [Some (Fin 5)]"
  using estimate_20_low
  by (simp add: handleQualityPreset_def rerender_def estimate_effect_def done_session_def
        initial_session_def done_record_def)

section \<open>The batch loop\<close>

lemma settle_id [simp]: "img_id (settle img fetched) = img_id img"
  by (simp add: settle_def caught_def split: outcome.splits)

lemma compressImage_eq:
  "compressImage net n q fmt img evs =
     (settle img (net n \<lparr>req_file = img_file img, req_quality = q, req_format = fmt\<rparr>),
      evs @ [RequestSent \<lparr>req_file = img_file img, req_quality = q, req_format = fmt\<rparr>,
             RequestSettled (net n \<lparr>req_file = img_file img, req_quality = q, req_format = fmt\<rparr>)])"
  by (simp add: compressImage_def await_fetch_def Let_def)

lemma loop_calls:
  "calls (compress_loop net q fmt n ps s) = calls s @ pair_events net q fmt n ps"
  by (induction ps arbitrary: n s) (simp_all add: compressImage_eq Let_def)

lemma loop_updates:
  "\<exists>us. updates (compress_loop net q fmt n ps s) = updates s @ us"
proof (induction ps arbitrary: n s)
  case Nil
  show ?case by simp
next
  case (Cons p ps)
  define s2 where "s2 = s\<lparr>calls := snd (compressImage net n q fmt p (calls s)),
      images := replace_by_id (fst (compressImage net n q fmt p (calls s))) (images s),
      updates := updates s @ [replace_by_id (fst (compressImage net n q fmt p (calls s))) (images s)]\<rparr>"
  obtain us where "updates (compress_loop net q fmt (Suc n) ps s2) = updates s2 @ us"
    using Cons.IH[of "Suc n" s2] by blast
  moreover have "compress_loop net q fmt n (p # ps) s = compress_loop net q fmt (Suc n) ps s2"
    by (simp add: s2_def Let_def split: prod.splits)
  moreover have "updates s2 = updates s @ [replace_by_id (fst (compressImage net n q fmt p (calls s))) (images s)]"
    by (simp add: s2_def)
  ultimately show ?case by simp
qed

lemma loop_images:
  "images (compress_loop net q fmt n ps s) = map (after_calls net q fmt n ps) (images s)"
proof (induction ps arbitrary: n s)
  case Nil
  show ?case by (simp add: map_idI)
next
  case (Cons p ps)
  show ?case by (simp add: Cons.IH Let_def replace_by_id_def comp_def compressImage_eq)
qed

lemma loop_frame:
  "quality (compress_loop net q fmt n ps s) = quality s"
  "qualityPreset (compress_loop net q fmt n ps s) = qualityPreset s"
  "outputFormat (compress_loop net q fmt n ps s) = outputFormat s"
  "revoked (compress_loop net q fmt n ps s) = revoked s"
  by (induction ps arbitrary: n s; simp add: Let_def compressImage_eq)+

lemma after_calls_other:
  "img_id img \<notin> img_id ` set ps \<Longrightarrow> after_calls net q fmt n ps img = img"
  by (induction ps arbitrary: n) auto

lemma mark_compressing_ids [simp]: "map img_id (mark_compressing L) = map img_id L"
  by (simp add: mark_compressing_def comp_def)

lemma batch_images:
  "distinct (map img_id L) \<Longrightarrow>
   map (after_calls net q fmt n (filter eligible L)) (mark_compressing L) = spec_batch net q fmt n L"
proof (induction L arbitrary: n)
  case Nil
  then show ?case by (simp add: mark_compressing_def)
next
  case (Cons x L)
  have notin: "img_id x \<notin> img_id ` set (filter eligible L)" using Cons.prems by auto
  have rest: "\<And>f. map (\<lambda>y. after_calls net q fmt (Suc n) (filter eligible L)
                      (if img_id y = img_id x then f y else y)) (mark_compressing L)
              = map (after_calls net q fmt (Suc n) (filter eligible L)) (mark_compressing L)"
  proof -
    fix f
    have "\<forall>y \<in> set (mark_compressing L). img_id y \<noteq> img_id x"
    proof
      fix y assume "y \<in> set (mark_compressing L)"
      then have "img_id y \<in> set (map img_id (mark_compressing L))" by (simp del: mark_compressing_ids)
      then have "img_id y \<in> set (map img_id L)" by simp
      with Cons.prems show "img_id y \<noteq> img_id x" by auto
    qed
    then show "map (\<lambda>y. after_calls net q fmt (Suc n) (filter eligible L)
                      (if img_id y = img_id x then f y else y)) (mark_compressing L)
              = map (after_calls net q fmt (Suc n) (filter eligible L)) (mark_compressing L)"
      by (intro map_cong) auto
  qed
  have IH: "\<And>m. map (after_calls net q fmt m (filter eligible L)) (mark_compressing L)
              = spec_batch net q fmt m L"
    using Cons.IH Cons.prems by simp
  have split: "mark_compressing (x # L)
      = (if status x = Pending then x\<lparr>status := Compressing\<rparr> else x) # mark_compressing L"
    by (simp add: mark_compressing_def)
  show ?case
  proof (cases "eligible x")
    case True
    have head: "after_calls net q fmt (Suc n) (filter eligible L)
            (settle x (net n \<lparr>req_file = img_file x, req_quality = q, req_format = fmt\<rparr>))
          = settle x (net n \<lparr>req_file = img_file x, req_quality = q, req_format = fmt\<rparr>)"
      using notin by (intro after_calls_other) simp
    show ?thesis using True by (simp add: split head rest IH)
  next
    case False
    then have np: "status x \<noteq> Pending" by (simp add: eligible_def)
    have head: "after_calls net q fmt n (filter eligible L) x = x"
      using notin by (intro after_calls_other)
    show ?thesis using False np by (simp add: split head IH)
  qed
qed

lemma handleCompress_images:
  assumes "distinct (map img_id (images s))"
  shows "images (handleCompress net s) = spec_batch net (quality s) (outputFormat s) 0 (images s)"
proof (cases "images s = []")
  case True
  then show ?thesis by (simp add: handleCompress_def)
next
  case False
  then show ?thesis
    using batch_images[OF assms, of net "quality s" "outputFormat s" 0]
    by (simp add: handleCompress_def Let_def loop_images)
qed

lemma handleCompress_calls:
  "calls (handleCompress net s)
     = calls s @ pair_events net (quality s) (outputFormat s) 0 (filter eligible (images s))"
  by (cases "images s = []") (simp_all add: handleCompress_def Let_def loop_calls)

lemma handleCompress_updates:
  assumes "images s \<noteq> []"
  shows "\<exists>us. updates (handleCompress net s) = updates s @ mark_compressing (images s) # us"
proof -
  define s2 where "s2 = s\<lparr>isCompressing := True, images := mark_compressing (images s),
      updates := updates s @ [mark_compressing (images s)]\<rparr>"
  obtain us where "updates (compress_loop net (quality s) (outputFormat s) 0
        (filter eligible (images s)) s2) = updates s2 @ us"
    using loop_updates by blast
  moreover have "updates (handleCompress net s)
      = updates (compress_loop net (quality s) (outputFormat s) 0 (filter eligible (images s)) s2)"
    using assms by (simp add: handleCompress_def Let_def s2_def)
  moreover have "updates s2 = updates s @ [mark_compressing (images s)]" by (simp add: s2_def)
  ultimately show ?thesis by simp
qed

lemma mark_compressing_eligible:
  "mark_compressing L = map (\<lambda>img. if eligible img then img\<lparr>status := Compressing\<rparr> else img) L"
  by (auto simp: mark_compressing_def eligible_def)

lemma pair_events_enumerate:
  "pair_events net (quality s) (outputFormat s) n ps
     = concat (map (\<lambda>(k, img). [RequestSent (request_of s img), RequestSettled (net k (request_of s img))])
                (enumerate n ps))"
  by (induction ps arbitrary: n) (simp_all add: request_of_def)

lemma in_flight_append: "in_flight (xs @ ys) = in_flight xs + in_flight ys"
  by (induction xs rule: in_flight.induct) simp_all

lemma in_flight_pairs:
  "0 \<le> in_flight (take k (pair_events net q fmt n ps))
   \<and> in_flight (take k (pair_events net q fmt n ps)) \<le> 1"
proof (induction ps arbitrary: k n)
  case Nil
  then show ?case by simp
next
  case (Cons p ps)
  show ?case
  proof (cases k)
    case 0 then show ?thesis by simp
  next
    case (Suc k1)
    show ?thesis
    proof (cases k1)
      case 0 with Suc show ?thesis by simp
    next
      case (Suc k2)
      with \<open>k = Suc k1\<close> Cons.IH[of k2 "Suc n"] show ?thesis by simp
    qed
  qed
qed

lemma settle_failed:
  "failed fetched \<Longrightarrow> \<exists>m. settle img fetched = img\<lparr>status := Error, error := Some m\<rparr>"
  by (auto simp: failed_def settle_def caught_def split: outcome.splits)

lemma settle_succeeded:
  "fetched = Returns \<lparr>ok = True, json = Returns r\<rparr> \<Longrightarrow>
   settle img fetched = img\<lparr>status := Done, original := r_original r, compressed := r_compressed r,
                              compressionRatio := r_compressionRatio r\<rparr>"
  by (simp add: settle_def)

lemma settle_status: "status (settle img fetched) = (if failed fetched then Error else Done)"
  by (simp add: failed_def settle_def caught_def split: outcome.splits)

text \<open>
  C4. In a session whose records have distinct ids, the batch leaves the list that
  \<open>spec_batch\<close> describes: every eligible record is replaced by the outcome of its own call
  and of no other, so the loop goes on after a failure. A failed call (a transport
  failure, a response that is not \<open>ok\<close>, a body that throws) puts its record into the
  status \<open>Error\<close> with a message and changes nothing else of it. A batch of two eligible
  records of which exactly one call fails ends with one \<open>Done\<close> and one \<open>Error\<close> record, each
  being what its own call alone makes of it.
\<close>

theorem failure_stays_with_its_record:
  assumes "distinct (map img_id (images s))"
  shows "images (handleCompress net s) = spec_batch net (quality s) (outputFormat s) 0 (images s)
     \<and> (\<forall>img fetched. failed fetched \<longrightarrow>
            (\<exists>m. settle img fetched = img\<lparr>status := Error, error := Some m\<rparr>))
     \<and> (images s = [a, b] \<and> eligible a \<and> eligible b
          \<and> failed (net 0 (request_of s a)) \<noteq> failed (net 1 (request_of s b)) \<longrightarrow>
            images (handleCompress net s)
              = [settle a (net 0 (request_of s a)), settle b (net 1 (request_of s b))]
          \<and> length (filter (\<lambda>img. status img = Done) (images (handleCompress net s))) = 1
          \<and> length (filter (\<lambda>img. status img = Error) (images (handleCompress net s))) = 1)"
proof (intro conjI allI impI)
  show g: "images (handleCompress net s) = spec_batch net (quality s) (outputFormat s) 0 (images s)"
    by (rule handleCompress_images[OF assms])
  show "\<exists>m. settle img fetched = img\<lparr>status := Error, error := Some m\<rparr>" if "failed fetched"
    for img fetched using that by (rule settle_failed)
  assume h: "images s = [a, b] \<and> eligible a \<and> eligible b
          \<and> failed (net 0 (request_of s a)) \<noteq> failed (net 1 (request_of s b))"
  then show l: "images (handleCompress net s)
          = [settle a (net 0 (request_of s a)), settle b (net 1 (request_of s b))]"
    by (simp add: g request_of_def)
  from h show "length (filter (\<lambda>img. status img = Done) (images (handleCompress net s))) = 1"
    by (auto simp: l settle_status)
  from h show "length (filter (\<lambda>img. status img = Error) (images (handleCompress net s))) = 1"
    by (auto simp: l settle_status)
qed

text \<open>An instance: the first call of a batch of two throws, the second one succeeds.\<close>

theorem failure_stays_with_its_record_witness:
  "distinct (map img_id (images two_pending))
   \<and> map status (images (handleCompress first_call_fails two_pending)) = [Error, Done]
   \<and> map error (images (handleCompress first_call_fails two_pending)) = [Some ''Failed to fetch'', None]
   \<and> map compressed (images (handleCompress first_call_fails two_pending))
        = [None, Some \<lparr>c_size = 6, c_width = 1, c_height = 1, c_format = ''png'', c_base64 = []\<rparr>]"
proof -
  have d: "distinct (map img_id (images two_pending))"
    by (simp add: two_pending_def pending_record_def initial_session_def)
  have e: "eligible (pending_record ''a'')" "eligible (pending_record ''b'')"
    by (simp_all add: eligible_def pending_record_def)
  have "images (handleCompress first_call_fails two_pending)
        = spec_batch first_call_fails (quality two_pending) (outputFormat two_pending) 0 (images two_pending)"
    using failure_stays_with_its_record[OF d, of first_call_fails] by simp
  then show ?thesis
    using d e
    by (simp add: two_pending_def initial_session_def settle_def caught_def
          first_call_fails_def measured_def)
       (simp add: pending_record_def)
qed

text \<open>
  C5. For a list that is not empty, the first list the batch stores is the list it started
  with in which exactly the records \<open>Pending\<close> or \<open>Compressing\<close> at its start have the
  status \<open>Compressing\<close>. The calls it makes are, for these records in array order, one
  request each, carrying the record's own file and the settings of the session, and
  settled to the answer of the network before the request of the next record is sent: the
  log is a sequence of such pairs, and in every prefix of it at most one request is in
  flight.
\<close>

theorem batch_is_sequential:
  "take 1 (drop (length (updates s)) (updates (handleCompress net s)))
     = (if images s = [] then []
        else [map (\<lambda>img. if status img = Pending \<or> status img = Compressing
                         then img\<lparr>status := Compressing\<rparr> else img) (images s)])
   \<and> calls (handleCompress net s)
       = calls s @ concat (map (\<lambda>(n, img). [RequestSent (request_of s img),
                                               RequestSettled (net n (request_of s img))])
                           (enumerate 0 (filter (\<lambda>img. status img = Pending \<or> status img = Compressing)
                                           (images s))))
   \<and> (\<forall>k. 0 \<le> in_flight (take k (drop (length (calls s)) (calls (handleCompress net s))))
          \<and> in_flight (take k (drop (length (calls s)) (calls (handleCompress net s)))) \<le> 1)"
proof (intro conjI allI)
  have el: "eligible = (\<lambda>img. status img = Pending \<or> status img = Compressing)"
    by (simp add: eligible_def fun_eq_iff)
  show "take 1 (drop (length (updates s)) (updates (handleCompress net s)))
     = (if images s = [] then []
        else [map (\<lambda>img. if status img = Pending \<or> status img = Compressing
                         then img\<lparr>status := Compressing\<rparr> else img) (images s)])"
  proof (cases "images s = []")
    case True
    then show ?thesis by (simp add: handleCompress_def)
  next
    case False
    then obtain us where "updates (handleCompress net s) = updates s @ mark_compressing (images s) # us"
      using handleCompress_updates by blast
    then show ?thesis using False by (simp add: mark_compressing_eligible el)
  qed
  show "calls (handleCompress net s)
       = calls s @ concat (map (\<lambda>(n, img). [RequestSent (request_of s img),
                                               RequestSettled (net n (request_of s img))])
                           (enumerate 0 (filter (\<lambda>img. status img = Pending \<or> status img = Compressing)
                                           (images s))))"
    by (simp only: handleCompress_calls pair_events_enumerate el)
  fix k
  show "0 \<le> in_flight (take k (drop (length (calls s)) (calls (handleCompress net s))))"
    using in_flight_pairs[of k net "quality s" "outputFormat s" 0 "filter eligible (images s)"]
    by (simp add: handleCompress_calls)
  show "in_flight (take k (drop (length (calls s)) (calls (handleCompress net s)))) \<le> 1"
    using in_flight_pairs[of k net "quality s" "outputFormat s" 0 "filter eligible (images s)"]
    by (simp add: handleCompress_calls)
qed

text \<open>
  An instance: the batch of two, the first call throwing. The log holds the two requests
  with their files and their answers, and the first list stored has both records
  \<open>Compressing\<close>.
\<close>

theorem batch_is_sequential_witness:
  "calls (handleCompress first_call_fails two_pending)
     = [RequestSent \<lparr>req_file = img_file (pending_record ''a''), req_quality = 70,
                     req_format = ''original''\<rparr>,
        RequestSettled (Throws (ErrorObject ''Failed to fetch'')),
        RequestSent \<lparr>req_file = img_file (pending_record ''b''), req_quality = 70,
                     req_format = ''original''\<rparr>,
        RequestSettled (Returns \<lparr>ok = True, json = Returns measured\<rparr>)]
   \<and> take 1 (updates (handleCompress first_call_fails two_pending))
       = [(pending_record ''a'')\<lparr>status := Compressing\<rparr>,
          (pending_record ''b'')\<lparr>status := Compressing\<rparr>] # []"
  using batch_is_sequential[of two_pending first_call_fails]
  by (simp add: two_pending_def initial_session_def pending_record_def eligible_def
        request_of_def first_call_fails_def enumerate_eq_zip)

section \<open>The estimator against exact rounding\<close>

lemma fl_half_int:
  assumes "\<bar>2 * k - 1\<bar> < 2 ^ 53"
  shows "fl (of_int k - 1 / 2) = of_int k - 1 / 2"
proof -
  have e: "(of_int k - 1 / 2 :: rat) = of_int (2 * k - 1) * 2 powi (- 1)" by (simp add: field_simps)
  show ?thesis unfolding e by (rule fl_dyadic[OF assms])
qed

lemma exact_round_div:
  assumes "0 < D"
  shows "exact_round (of_nat x * (of_int N / of_int D)) = (2 * int x * N + D) div (2 * D)"
proof -
  have "of_nat x * (of_int N / of_int D) + 1 / 2 = (of_int (2 * int x * N + D) / of_int (2 * D) :: rat)"
    using assms by (simp add: field_simps)
  then show ?thesis unfolding exact_round_def by (simp only: floor_divide_of_int_eq)
qed

lemma round_fl_product:
  fixes x :: nat and N D :: int and f :: rat
  assumes x: "x < 2 ^ 40" and D: "0 < D" "D \<le> 500" and N: "0 \<le> N" "N \<le> D"
    and f: "\<bar>f - of_int N / of_int D\<bar> \<le> 6 / 2 ^ 53"
  defines "k \<equiv> (2 * int x * N + D) div (2 * D)"
  defines "M \<equiv> (2 * int x * N + D) mod (2 * D)"
  shows "M \<noteq> 0 \<Longrightarrow> Math_round (fmul (of_nat x) f) = k"
    and "M = 0 \<Longrightarrow> of_int N / of_int D \<le> f \<Longrightarrow> Math_round (fmul (of_nat x) f) = k"
    and "M = 0 \<Longrightarrow> Math_round (fmul (of_nat x) f) = k \<or> Math_round (fmul (of_nat x) f) = k - 1"
proof -
  define g :: rat where "g = of_int N / of_int D"
  define t :: rat where "t = of_nat x * g"
  define y :: rat where "y = of_nat x * f"
  have D0: "(0::rat) < of_int D" using D(1) by simp
  have g01: "0 \<le> g" "g \<le> 1" using N D0 by (simp_all add: g_def)
  have xr: "(of_nat x :: rat) \<le> 2 ^ 40" "(0::rat) \<le> of_nat x"
    using x by (simp_all add: of_nat_le_iff[where 'a=rat, of x "2 ^ 40", simplified] less_imp_le)
  have t0: "0 \<le> t" using g01 xr by (simp add: t_def)
  have "of_nat x * g \<le> of_nat x * 1" using g01(2) xr(2) by (intro mult_left_mono)
  then have tx: "t \<le> 2 ^ 40" using xr(1) by (simp add: t_def)
  have "\<bar>y - t\<bar> = of_nat x * \<bar>f - g\<bar>" by (simp add: y_def t_def abs_mult flip: right_diff_distrib)
  also have "\<dots> \<le> 2 ^ 40 * (6 / 2 ^ 53)"
    using xr f by (intro mult_mono) (simp_all add: g_def)
  finally have yt: "\<bar>y - t\<bar> \<le> 6 / 8192" by simp
  have "\<bar>fl y - y\<bar> \<le> \<bar>y\<bar> / 2 ^ 53" by (rule fl_err)
  moreover have "\<bar>y\<bar> \<le> 2 ^ 40 + 1" using yt t0 tx by (simp add: abs_if split: if_splits)
  ultimately have "\<bar>fl y - y\<bar> \<le> (2 ^ 40 + 1) / 2 ^ 53"
    by (meson divide_right_mono order_trans zero_le_numeral zero_le_power)
  then have fy: "\<bar>fl y - y\<bar> \<le> 1 / 8000" by simp
  have near: "\<bar>fl y - t\<bar> < 1 / 1000" using fy yt by (simp add: abs_if split: if_splits)
  have dm: "2 * int x * N + D = k * (2 * D) + M" by (simp only: k_def M_def div_mult_mod_eq)
  have Mb: "0 \<le> M" "M < 2 * D" using D(1) by (simp_all add: M_def)
  have "of_int (2 * int x * N + D) = (of_int (k * (2 * D) + M) :: rat)" by (simp only: dm)
  then have "2 * of_int D * (t + 1 / 2) = 2 * of_int D * (of_int k + of_int M / (2 * of_int D))"
    using D0 by (simp add: t_def g_def field_simps)
  then have tk: "t + 1 / 2 = of_int k + of_int M / (2 * of_int D)" using D0 by simp
  have k0: "0 \<le> k" using N D(1) by (simp add: k_def pos_imp_zdiv_nonneg_iff)
  have "of_int k \<le> t + 1 / 2" using tk Mb(1) D0 by simp
  then have "of_int k \<le> (2 ^ 40 + 1 :: rat)" using tx by simp
  then have "of_int k \<le> (of_int (2 ^ 40 + 1) :: rat)" by simp
  then have k1: "k \<le> 2 ^ 40 + 1" by (simp only: of_int_le_iff)
  { assume "M \<noteq> 0"
    then have M1: "1 \<le> M" "1 \<le> 2 * D - M" using Mb by simp_all
    define w :: rat where "w = of_int M / (2 * of_int D)"
    have "(1::rat) / (2 * 500) \<le> of_int M / (2 * of_int D)"
      using M1(1) D by (intro frac_le) simp_all
    then have w1: "1 / 1000 \<le> w" by (simp add: w_def)
    have a: "(1::rat) / (2 * 500) \<le> of_int (2 * D - M) / (2 * of_int D)"
      using M1(2) D by (intro frac_le) simp_all
    have b: "of_int (2 * D - M) / (2 * of_int D) = (1 - w :: rat)"
      using D0 by (simp add: w_def field_simps)
    have w2: "1 / 1000 \<le> 1 - w" using a unfolding b by simp
    have "t + 1 / 2 = of_int k + w" using tk by (simp add: w_def)
    with w1 w2 have "of_int k + 1 / 1000 \<le> t + 1 / 2" "t + 1 / 2 \<le> of_int k + 1 - 1 / 1000"
      by linarith+
    then have "of_int k - 1 / 2 \<le> fl y" "fl y < of_int k + 1 / 2"
      using near by (simp_all add: abs_if split: if_splits)
    then have "Math_round (fl y) = k" by (rule Math_round_eqI) }
  then show "M \<noteq> 0 \<Longrightarrow> Math_round (fmul (of_nat x) f) = k" by (simp add: fmul_def y_def)
  { assume "M = 0"
    then have tk0: "t = of_int k - 1 / 2" using tk by simp
    have "\<bar>2 * k - 1\<bar> < 2 ^ 53" using k0 k1 by simp
    then have flt: "fl t = t" unfolding tk0 by (rule fl_half_int)
    have up: "fl y < of_int k + 1 / 2" using near tk0 by (simp add: abs_if split: if_splits)
    have lo: "of_int (k - 1) - 1 / 2 \<le> fl y" using near tk0 by (simp add: abs_if split: if_splits)
    { assume "t \<le> y"
      then have "fl t \<le> fl y" by (rule fl_mono)
      then have "of_int k - 1 / 2 \<le> fl y" using flt tk0 by simp
      then have "Math_round (fl y) = k" using up by (rule Math_round_eqI) }
    note ge = this
    { assume "\<not> t \<le> y"
      then have "fl y \<le> fl t" by (intro fl_mono) simp
      then have "fl y < of_int (k - 1) + 1 / 2 \<or> fl y = of_int k - 1 / 2" using flt tk0 by auto
      then have "Math_round (fl y) = k \<or> Math_round (fl y) = k - 1"
      proof
        assume "fl y < of_int (k - 1) + 1 / 2"
        with lo have "Math_round (fl y) = k - 1" by (rule Math_round_eqI)
        then show ?thesis by simp
      next
        assume "fl y = of_int k - 1 / 2"
        then have "Math_round (fl y) = k" by (intro Math_round_eqI) simp_all
        then show ?thesis by simp
      qed }
    note lt = this
    have "g \<le> f \<Longrightarrow> t \<le> y" using xr(2) by (simp add: t_def y_def mult_left_mono)
    with ge have a: "g \<le> f \<Longrightarrow> Math_round (fl y) = k" by simp
    from ge lt have b: "Math_round (fl y) = k \<or> Math_round (fl y) = k - 1" by blast
    note a b }
  then show "M = 0 \<Longrightarrow> of_int N / of_int D \<le> f \<Longrightarrow> Math_round (fmul (of_nat x) f) = k"
    and "M = 0 \<Longrightarrow> Math_round (fmul (of_nat x) f) = k \<or> Math_round (fmul (of_nat x) f) = k - 1"
    by (simp_all add: fmul_def y_def g_def)
qed

lemma fl_err_le:
  assumes "\<bar>r\<bar> \<le> B"
  shows "\<bar>fl r - r\<bar> \<le> B / 2 ^ 53"
proof -
  have "\<bar>fl r - r\<bar> \<le> \<bar>r\<bar> / 2 ^ 53" by (rule fl_err)
  also have "\<dots> \<le> B / 2 ^ 53" using assms by (simp add: divide_right_mono)
  finally show ?thesis .
qed

lemma custom_factor_err:
  assumes "0 \<le> q" "q \<le> 100"
  shows "\<bar>custom_factor q - of_int (50 + 3 * q) / of_int 500\<bar> \<le> 6 / 2 ^ 53"
proof -
  define A :: rat where "A = of_int q / 100"
  define a where "a = fl A"
  define p :: rat where "p = a * (5404319552844595 / 9007199254740992)"
  define b where "b = fl p"
  define s :: rat where "s = 3602879701896397 / 36028797018963968 + b"
  have A01: "0 \<le> A" "A \<le> 1" using assms by (simp_all add: A_def)
  then have "\<bar>A\<bar> \<le> 1" by simp
  then have ea: "\<bar>a - A\<bar> \<le> 1 / 2 ^ 53" unfolding a_def by (rule fl_err_le)
  have "\<bar>p\<bar> \<le> 1" using ea A01 unfolding p_def by (simp add: abs_if split: if_splits)
  then have eb: "\<bar>b - p\<bar> \<le> 1 / 2 ^ 53" unfolding b_def by (rule fl_err_le)
  have "\<bar>s\<bar> \<le> 2" using eb ea A01 unfolding p_def s_def by (simp add: abs_if split: if_splits)
  then have es: "\<bar>fl s - s\<bar> \<le> 2 / 2 ^ 53" by (rule fl_err_le)
  have cf: "custom_factor q = fl s"
    unfolding custom_factor_def fadd_def fmul_def fdiv_def fl_1_10 fl_6_10
    by (simp add: s_def b_def p_def a_def A_def)
  have g: "(of_int (50 + 3 * q) / of_int 500 :: rat) = 1 / 10 + A * (3 / 5)"
    by (simp add: A_def field_simps)
  have "\<bar>fl s - (1 / 10 + A * (3 / 5))\<bar> \<le> 6 / 2 ^ 53"
    using es eb ea A01 unfolding p_def s_def by (simp add: abs_if split: if_splits)
  then show ?thesis by (simp only: cf g)
qed

lemma fl_0 [simp]: "fl 0 = 0"
  by (simp add: fl_def)

lemma fl_nonneg: "0 \<le> r \<Longrightarrow> 0 \<le> fl r"
  using fl_mono[of 0 r] by simp

lemma custom_factor_mono:
  assumes "q1 \<le> q2"
  shows "custom_factor q1 \<le> custom_factor q2"
proof -
  have c: "0 \<le> fl (6 / 10)" by (intro fl_nonneg) simp
  have "(of_int q1 / 100 :: rat) \<le> of_int q2 / 100" using assms by (simp add: divide_right_mono)
  then have "fdiv (of_int q1) 100 \<le> fdiv (of_int q2) 100" unfolding fdiv_def by (rule fl_mono)
  then have "fdiv (of_int q1) 100 * fl (6 / 10) \<le> fdiv (of_int q2) 100 * fl (6 / 10)"
    using c by (rule mult_right_mono)
  then have "fmul (fdiv (of_int q1) 100) (fl (6 / 10)) \<le> fmul (fdiv (of_int q2) 100) (fl (6 / 10))"
    unfolding fmul_def by (rule fl_mono)
  then have "fl (1 / 10) + fmul (fdiv (of_int q1) 100) (fl (6 / 10))
      \<le> fl (1 / 10) + fmul (fdiv (of_int q2) 100) (fl (6 / 10))" by simp
  then show ?thesis unfolding custom_factor_def fadd_def by (rule fl_mono)
qed

lemma Math_round_mono: "a \<le> b \<Longrightarrow> Math_round a \<le> Math_round b"
  unfolding Math_round_def by (intro floor_mono) simp

lemma round_product_mono:
  assumes "f1 \<le> f2"
  shows "Math_round (fmul (of_nat x) f1) \<le> Math_round (fmul (of_nat x) f2)"
proof -
  have "(of_nat x :: rat) * f1 \<le> of_nat x * f2" using assms by (simp add: mult_left_mono)
  then have "fmul (of_nat x) f1 \<le> fmul (of_nat x) f2" unfolding fmul_def by (rule fl_mono)
  then show ?thesis by (rule Math_round_mono)
qed

lemma estimateSize_custom:
  "q \<noteq> 0 \<Longrightarrow>
   estimateSize x ''custom'' (Some q) = Fin (of_int (Math_round (fmul (of_nat x) (custom_factor q))))"
  by (simp add: estimateSize_def round_product_def)

lemma estimateSize_not_custom:
  assumes "preset \<noteq> ''custom'' \<or> cq = None \<or> cq = Some 0"
  shows "estimateSize x preset cq
           = round_product x (or_default (QUALITY_FACTORS_get preset) (fl (45 / 100)))"
  using assms by (auto simp: estimateSize_def split: option.splits)

lemma estimateSize_high:
  "estimateSize x ''high'' cq = Fin (of_int (Math_round (fmul (of_nat x) (fl (7 / 10)))))"
  by (simp add: estimateSize_not_custom QUALITY_FACTORS_get_own or_default_def round_product_def
        fl_7_10)

lemma estimateSize_medium:
  "estimateSize x ''medium'' cq = Fin (of_int (Math_round (fmul (of_nat x) (fl (9 / 20)))))"
  by (simp add: estimateSize_not_custom QUALITY_FACTORS_get_own or_default_def round_product_def
        fl_9_20)

lemma estimateSize_low:
  "estimateSize x ''low'' cq = Fin (of_int (Math_round (fmul (of_nat x) (1 / 4))))"
  by (simp add: estimateSize_not_custom QUALITY_FACTORS_get_own or_default_def round_product_def)

lemma QUALITY_FACTORS_get_other:
  assumes "preset \<noteq> ''high''" "preset \<noteq> ''medium''" "preset \<noteq> ''low''"
    and "preset \<notin> set Object_prototype_keys"
  shows "QUALITY_FACTORS_get preset = Undefined"
  using assms by (simp add: QUALITY_FACTORS_get_def QUALITY_FACTORS_def)

lemma estimateSize_fallback:
  assumes "preset \<noteq> ''high''" "preset \<noteq> ''medium''" "preset \<noteq> ''low''"
    and "preset \<notin> set Object_prototype_keys"
    and "preset \<noteq> ''custom'' \<or> cq = None \<or> cq = Some 0"
  shows "estimateSize x preset cq = Fin (of_int (Math_round (fmul (of_nat x) (fl (9 / 20)))))"
  using estimateSize_not_custom[OF assms(5), of x] QUALITY_FACTORS_get_other[OF assms(1-4)]
  by (simp add: or_default_def round_product_def)

lemma exact_round_eqI: "of_int k - 1 / 2 \<le> y \<Longrightarrow> y < of_int k + 1 / 2 \<Longrightarrow> exact_round y = k"
  unfolding exact_round_def by (intro floor_unique) simp_all

lemma estimate_vs_exact:
  fixes x :: nat and N D :: int and f :: rat
  assumes "x < 2 ^ 40" "0 < D" "D \<le> 500" "0 \<le> N" "N \<le> D"
    and "\<bar>f - of_int N / of_int D\<bar> \<le> 6 / 2 ^ 53"
  shows "(2 * int x * N + D) mod (2 * D) \<noteq> 0 \<Longrightarrow>
           Math_round (fmul (of_nat x) f) = exact_round (of_nat x * (of_int N / of_int D))"
    and "of_int N / of_int D \<le> f \<Longrightarrow>
           Math_round (fmul (of_nat x) f) = exact_round (of_nat x * (of_int N / of_int D))"
    and "Math_round (fmul (of_nat x) f) = exact_round (of_nat x * (of_int N / of_int D))
         \<or> Math_round (fmul (of_nat x) f) = exact_round (of_nat x * (of_int N / of_int D)) - 1"
proof -
  note r = round_fl_product[OF assms]
  note e = exact_round_div[OF assms(2), of x N]
  show "(2 * int x * N + D) mod (2 * D) \<noteq> 0 \<Longrightarrow>
           Math_round (fmul (of_nat x) f) = exact_round (of_nat x * (of_int N / of_int D))"
    unfolding e using r(1) by simp
  show "of_int N / of_int D \<le> f \<Longrightarrow>
           Math_round (fmul (of_nat x) f) = exact_round (of_nat x * (of_int N / of_int D))"
    unfolding e using r(1) r(2) by (cases "(2 * int x * N + D) mod (2 * D) = 0") simp_all
  show "Math_round (fmul (of_nat x) f) = exact_round (of_nat x * (of_int N / of_int D))
         \<or> Math_round (fmul (of_nat x) f) = exact_round (of_nat x * (of_int N / of_int D)) - 1"
    unfolding e using r(1) r(3) by (cases "(2 * int x * N + D) mod (2 * D) = 0") simp_all
qed

lemma medium_exact:
  assumes "x < 2 ^ 40"
  shows "estimateSize x ''medium'' cq = spec_estimate_preset x (45 / 100)"
proof -
  have "Math_round (fmul (of_nat x) (fl (9 / 20))) = exact_round (of_nat x * (of_int 9 / of_int 20))"
    using assms by (intro estimate_vs_exact(2)) (simp_all add: fl_9_20)
  then show ?thesis by (simp add: estimateSize_medium spec_estimate_preset_def)
qed

lemma fallback_exact:
  assumes "x < 2 ^ 40"
    and "preset \<noteq> ''high''" "preset \<noteq> ''medium''" "preset \<noteq> ''low''"
    and "preset \<notin> set Object_prototype_keys"
    and "preset \<noteq> ''custom'' \<or> cq = None \<or> cq = Some 0"
  shows "estimateSize x preset cq = spec_estimate_preset x (45 / 100)"
proof -
  have "Math_round (fmul (of_nat x) (fl (9 / 20))) = exact_round (of_nat x * (of_int 9 / of_int 20))"
    using assms(1) by (intro estimate_vs_exact(2)) (simp_all add: fl_9_20)
  then show ?thesis by (simp add: estimateSize_fallback[OF assms(2-)] spec_estimate_preset_def)
qed

lemma low_exact:
  assumes "x < 2 ^ 40"
  shows "estimateSize x ''low'' cq = spec_estimate_preset x (25 / 100)"
proof -
  have "Math_round (fmul (of_nat x) (1 / 4)) = exact_round (of_nat x * (of_int 1 / of_int 4))"
    using assms by (intro estimate_vs_exact(2)) simp_all
  then show ?thesis by (simp add: estimateSize_low spec_estimate_preset_def)
qed

lemma tie_10:
  assumes "(2 * int x * 7 + 10) mod (2 * 10) = 0"
  shows "x mod 10 = 5"
proof -
  from assms have "20 dvd 14 * int x + 10" by (simp add: mod_eq_0_iff_dvd)
  then obtain j where j: "14 * int x + 10 = 20 * j" by (auto simp: dvd_def)
  define z where "z = 3 * j - 2 * int x - 2"
  have e: "5 + 10 * z = 30 * j - 20 * int x - 15" by (simp add: z_def algebra_simps)
  have "int x = 30 * j - 20 * int x - 15" using j by linarith
  then have X: "int x = 5 + 10 * z" using e by linarith
  have "int x mod 10 = (5 + 10 * z) mod 10" using X by simp
  also have "\<dots> = 5 mod 10" by (rule mod_mult_self2)
  finally have "int x mod 10 = 5" by simp
  then have "int (x mod 10) = int 5" by (simp add: zmod_int)
  then show ?thesis by (simp only: of_nat_eq_iff)
qed

lemma tie_500:
  assumes "(2 * P + 500) mod (2 * 500) = 0"
  shows "P mod 500 = (250::int)"
proof -
  from assms have "1000 dvd 2 * P + 500" by (simp add: mod_eq_0_iff_dvd)
  then obtain j where j: "2 * P + 500 = 1000 * j" by (auto simp: dvd_def)
  define z where "z = j - 1"
  have e: "250 + 500 * z = 500 * j - 250" by (simp add: z_def algebra_simps)
  have "P = 500 * j - 250" using j by linarith
  then have P: "P = 250 + 500 * z" using e by linarith
  have "P mod 500 = (250 + 500 * z) mod 500" using P by simp
  also have "\<dots> = 250 mod 500" by (rule mod_mult_self2)
  finally show ?thesis by simp
qed

lemma factor_7_10:
  assumes "x < 2 ^ 40" and "\<bar>f - 7 / 10\<bar> \<le> 6 / 2 ^ 53"
  shows "x mod 10 \<noteq> 5 \<Longrightarrow> Math_round (fmul (of_nat x) f) = exact_round (of_nat x * (70 / 100))"
    and "Math_round (fmul (of_nat x) f) = exact_round (of_nat x * (70 / 100))
         \<or> Math_round (fmul (of_nat x) f) = exact_round (of_nat x * (70 / 100)) - 1"
proof -
  have f: "\<bar>f - of_int 7 / of_int 10\<bar> \<le> 6 / 2 ^ 53" using assms(2) by simp
  note v = estimate_vs_exact[OF assms(1) _ _ _ _ f]
  have m: "x mod 10 \<noteq> 5 \<Longrightarrow> (2 * int x * 7 + 10) mod (2 * 10) \<noteq> 0"
    using tie_10[of x] by auto
  show "x mod 10 \<noteq> 5 \<Longrightarrow> Math_round (fmul (of_nat x) f) = exact_round (of_nat x * (70 / 100))"
    using v(1) m by simp
  show "Math_round (fmul (of_nat x) f) = exact_round (of_nat x * (70 / 100))
         \<or> Math_round (fmul (of_nat x) f) = exact_round (of_nat x * (70 / 100)) - 1"
    using v(3) by simp
qed

lemma high_exact:
  assumes "x < 2 ^ 40"
  shows "x mod 10 \<noteq> 5 \<Longrightarrow> estimateSize x ''high'' cq = spec_estimate_preset x (70 / 100)"
    and "estimateSize x ''high'' cq = spec_estimate_preset x (70 / 100)
         \<or> estimateSize x ''high'' cq = Fin (of_int (exact_round (of_nat x * (70 / 100)) - 1))"
proof -
  have f: "\<bar>fl (7 / 10) - 7 / 10\<bar> \<le> 6 / 2 ^ 53" by (simp add: fl_7_10)
  note v = factor_7_10[OF assms f]
  show "x mod 10 \<noteq> 5 \<Longrightarrow> estimateSize x ''high'' cq = spec_estimate_preset x (70 / 100)"
    using v(1) by (simp add: estimateSize_high spec_estimate_preset_def)
  show "estimateSize x ''high'' cq = spec_estimate_preset x (70 / 100)
         \<or> estimateSize x ''high'' cq = Fin (of_int (exact_round (of_nat x * (70 / 100)) - 1))"
    using v(2) by (auto simp: estimateSize_high spec_estimate_preset_def)
qed

lemma custom_exact:
  assumes "x < 2 ^ 40" "10 \<le> q" "q \<le> 100"
  shows "(int x * (50 + 3 * q)) mod 500 \<noteq> 250 \<Longrightarrow>
           estimateSize x ''custom'' (Some q) = spec_estimate_custom x q"
    and "estimateSize x ''custom'' (Some q) = spec_estimate_custom x q
         \<or> estimateSize x ''custom'' (Some q)
             = Fin (of_int (exact_round (of_nat x * (1 / 10 + (of_int q / 100) * (6 / 10))) - 1))"
proof -
  have q0: "q \<noteq> 0" "0 \<le> q" using assms(2) by simp_all
  have g: "(1 / 10 + (of_int q / 100) * (6 / 10) :: rat) = of_int (50 + 3 * q) / of_int 500"
    by (simp add: field_simps)
  have N: "0 \<le> 50 + 3 * q" "50 + 3 * q \<le> 500" using assms(2,3) by simp_all
  note v = estimate_vs_exact[OF assms(1) _ _ N custom_factor_err[OF q0(2) assms(3)]]
  define P where "P = int x * (50 + 3 * q)"
  have "P mod 500 \<noteq> 250 \<Longrightarrow> (2 * P + 500) mod (2 * 500) \<noteq> 0"
    using tie_500[of P] by auto
  then have m: "(int x * (50 + 3 * q)) mod 500 \<noteq> 250 \<Longrightarrow>
      (2 * int x * (50 + 3 * q) + 500) mod (2 * 500) \<noteq> 0"
    by (simp add: P_def mult.assoc)
  show "(int x * (50 + 3 * q)) mod 500 \<noteq> 250 \<Longrightarrow>
           estimateSize x ''custom'' (Some q) = spec_estimate_custom x q"
    using v(1) m unfolding estimateSize_custom[OF q0(1)] spec_estimate_custom_def g by simp
  show "estimateSize x ''custom'' (Some q) = spec_estimate_custom x q
         \<or> estimateSize x ''custom'' (Some q)
             = Fin (of_int (exact_round (of_nat x * (1 / 10 + (of_int q / 100) * (6 / 10))) - 1))"
    using v(3) unfolding estimateSize_custom[OF q0(1)] spec_estimate_custom_def g by auto
qed

lemma exact_450000: "exact_round (1000000 * (45 / 100)) = 450000"
  by (rule exact_round_eqI) simp_all

lemma exact_430000: "exact_round (1000000 * (1 / 10 + (55 / 100) * (6 / 10))) = 430000"
  by (rule exact_round_eqI) simp_all

lemma exact_45_high: "exact_round (45 * (70 / 100)) = 32"
  by (rule exact_round_eqI) simp_all

lemma fl_45_high: "fl (141863388262170615 / 4503599627370496) = 8866461766385663 / 281474976710656"
  using fl_eqI[of "4" "141863388262170615 / 4503599627370496" "8866461766385663"] by simp

lemma Math_round_45_high: "Math_round (fmul 45 (fl (7 / 10))) = 31"
  by (rule Math_round_eqI) (simp_all add: fmul_def fl_7_10 fl_45_high)

lemma custom_factor_100: "custom_factor 100 = fl (7 / 10)"
proof -
  have a: "fdiv (of_int 100) 100 = 1" using fl_of_int[of 1] by (simp add: fdiv_def)
  have b: "fl (5404319552844595 / 9007199254740992) = 5404319552844595 / 9007199254740992"
    using fl_dyadic[of 5404319552844595 "- 53"] by simp
  have c: "fl (25220157913274777 / 36028797018963968) = 3152519739159347 / 4503599627370496"
    using fl_eqI[of "-1" "25220157913274777 / 36028797018963968" "6305039478318694"] by simp
  show ?thesis
    unfolding custom_factor_def a fadd_def fmul_def fl_1_10 fl_6_10
    by (simp add: b c fl_7_10)
qed

lemma fl_big_medium:
  "fl (18254168643286609216143769364073 / 18014398509481984) = 2026619832316735 / 2"
  using fl_eqI[of "49" "18254168643286609216143769364073 / 18014398509481984" "8106479329266940"]
  by simp

lemma Math_round_big_medium:
  "Math_round (fmul 2251799813685261 (fl (9 / 20))) = 1013309916158368"
  by (rule Math_round_eqI) (simp_all add: fmul_def fl_9_20 fl_big_medium)

lemma exact_big_medium: "exact_round (2251799813685261 * (45 / 100)) = 1013309916158367"
  by (rule exact_round_eqI) simp_all

text \<open>
  C1, as amended. For a size below \<open>2 ^ 40\<close> bytes the estimator, which computes in double
  precision, returns the exactly rounded product \<open>round (sourceBytes * factor)\<close> for the
  presets \<open>medium\<close> (0.45) and \<open>low\<close> (0.25). For \<open>high\<close> (0.70) it returns the exactly
  rounded product whenever the product is not an exact tie, that is whenever
  \<open>sourceBytes mod 10 \<noteq> 5\<close>, and otherwise that value or one less. For \<open>custom\<close> with a
  quality \<open>q\<close> from 10 to 100 it returns \<open>round (sourceBytes * (0.1 + (q / 100) * 0.6))\<close>
  whenever that product is not an exact tie, that is whenever
  \<open>sourceBytes * (50 + 3 * q) mod 500 \<noteq> 250\<close>, and otherwise that value or one less. In
  particular the estimate of 1000000 bytes is 450000 under \<open>medium\<close> and 430000 under
  \<open>custom\<close> with quality 55.
\<close>

theorem estimateSize_against_exact_rounding:
  assumes "sourceBytes < 2 ^ 40"
  shows "estimateSize sourceBytes ''medium'' cq = spec_estimate_preset sourceBytes (45 / 100)
     \<and> estimateSize sourceBytes ''low'' cq = spec_estimate_preset sourceBytes (25 / 100)
     \<and> (sourceBytes mod 10 \<noteq> 5 \<longrightarrow>
            estimateSize sourceBytes ''high'' cq = spec_estimate_preset sourceBytes (70 / 100))
     \<and> (estimateSize sourceBytes ''high'' cq = spec_estimate_preset sourceBytes (70 / 100)
          \<or> estimateSize sourceBytes ''high'' cq
               = Fin (of_int (exact_round (of_nat sourceBytes * (70 / 100)) - 1)))
     \<and> (10 \<le> q \<and> q \<le> 100 \<longrightarrow>
            ((int sourceBytes * (50 + 3 * q)) mod 500 \<noteq> 250 \<longrightarrow>
               estimateSize sourceBytes ''custom'' (Some q) = spec_estimate_custom sourceBytes q)
          \<and> (estimateSize sourceBytes ''custom'' (Some q) = spec_estimate_custom sourceBytes q
               \<or> estimateSize sourceBytes ''custom'' (Some q)
                    = Fin (of_int (exact_round
                        (of_nat sourceBytes * (1 / 10 + (of_int q / 100) * (6 / 10))) - 1))))
     \<and> estimateSize 1000000 ''medium'' cq = Fin 450000
     \<and> estimateSize 1000000 ''custom'' (Some 55) = Fin 430000"
proof -
  have m: "estimateSize 1000000 ''medium'' cq = Fin 450000"
    using medium_exact[of 1000000 cq] exact_450000 by (simp add: spec_estimate_preset_def)
  have "estimateSize 1000000 ''custom'' (Some 55) = spec_estimate_custom 1000000 55"
    by (rule custom_exact(1)) simp_all
  then have c: "estimateSize 1000000 ''custom'' (Some 55) = Fin 430000"
    using exact_430000 by (simp add: spec_estimate_custom_def)
  show ?thesis
    using medium_exact[OF assms, of cq] low_exact[OF assms, of cq] high_exact[OF assms, of cq]
      custom_exact[OF assms, of q] m c
    by blast
qed

text \<open>An instance: one million bytes.\<close>

theorem estimateSize_against_exact_rounding_witness:
  "(1000000::nat) < 2 ^ 40
   \<and> estimateSize 1000000 ''medium'' (Some 70) = Fin 450000
   \<and> estimateSize 1000000 ''custom'' (Some 55) = Fin 430000
   \<and> estimateSize 1000000 ''low'' (Some 70) = spec_estimate_preset 1000000 (25 / 100)
   \<and> estimateSize 1000000 ''high'' (Some 70) = spec_estimate_preset 1000000 (70 / 100)"
proof -
  have x: "(1000000::nat) < 2 ^ 40" by simp
  have m: "(1000000::nat) mod 10 \<noteq> 5" by simp
  note t = estimateSize_against_exact_rounding[OF x, of "Some 70" 55]
  from t have "estimateSize 1000000 ''medium'' (Some 70) = Fin 450000" by blast
  moreover from t have "estimateSize 1000000 ''custom'' (Some 55) = Fin 430000" by blast
  moreover from t have "estimateSize 1000000 ''low'' (Some 70) = spec_estimate_preset 1000000 (25 / 100)"
    by blast
  moreover from t m have "estimateSize 1000000 ''high'' (Some 70) = spec_estimate_preset 1000000 (70 / 100)"
    by blast
  ultimately show ?thesis using x by blast
qed

text \<open>
  C1 as stated fails: 45 bytes under \<open>high\<close> are estimated at 31, since the double nearest
  to 0.7 lies below 0.7 and the product \<open>31.499999999999996\<close> rounds down, whereas
  \<open>round (45 * 0.70) = round 31.5 = 32\<close>. It also fails for sizes beyond all files: at
  2251799813685261 bytes the \<open>medium\<close> estimate is one more than the exactly rounded product.
\<close>

theorem estimateSize_high_45:
  "estimateSize 45 ''high'' (Some 90) = Fin 31
   \<and> spec_estimate_preset 45 (70 / 100) = Fin 32
   \<and> estimateSize 2251799813685261 ''medium'' (Some 70) = Fin 1013309916158368
   \<and> spec_estimate_preset 2251799813685261 (45 / 100) = Fin 1013309916158367"
  using Math_round_45_high exact_45_high estimateSize_high[of 45 "Some 90"]
    Math_round_big_medium exact_big_medium estimateSize_medium[of 2251799813685261 "Some 70"]
  by (simp add: spec_estimate_preset_def)

text \<open>
  C6, as amended. For qualities \<open>q1 \<le> q2\<close> between 10 and 100 the custom estimate at \<open>q1\<close>
  is at most the one at \<open>q2\<close>, for every size. For a size \<open>x\<close> below \<open>2 ^ 40\<close> bytes the
  estimate at quality 10 is the exactly rounded \<open>round (0.16 * x)\<close>; the estimate at quality
  100 is the estimate of the preset \<open>high\<close>: the exactly rounded \<open>round (0.70 * x)\<close> whenever
  \<open>x mod 10 \<noteq> 5\<close>, and otherwise that value or one less.
\<close>

theorem custom_estimate_monotone:
  "(10 \<le> q1 \<and> q1 \<le> q2 \<and> q2 \<le> 100 \<longrightarrow>
      (\<exists>k1 k2. estimateSize x ''custom'' (Some q1) = Fin (of_int k1)
             \<and> estimateSize x ''custom'' (Some q2) = Fin (of_int k2) \<and> k1 \<le> k2))
   \<and> (x < 2 ^ 40 \<longrightarrow>
        estimateSize x ''custom'' (Some 10) = spec_estimate_preset x (16 / 100)
      \<and> estimateSize x ''custom'' (Some 100) = estimateSize x ''high'' None
      \<and> (x mod 10 \<noteq> 5 \<longrightarrow>
            estimateSize x ''custom'' (Some 100) = spec_estimate_preset x (70 / 100))
      \<and> (estimateSize x ''custom'' (Some 100) = spec_estimate_preset x (70 / 100)
          \<or> estimateSize x ''custom'' (Some 100)
               = Fin (of_int (exact_round (of_nat x * (70 / 100)) - 1))))"
proof (intro conjI impI)
  assume q: "10 \<le> q1 \<and> q1 \<le> q2 \<and> q2 \<le> 100"
  then have nz: "q1 \<noteq> 0" "q2 \<noteq> 0" by simp_all
  have "Math_round (fmul (of_nat x) (custom_factor q1)) \<le> Math_round (fmul (of_nat x) (custom_factor q2))"
    using q by (intro round_product_mono custom_factor_mono) simp
  then show "\<exists>k1 k2. estimateSize x ''custom'' (Some q1) = Fin (of_int k1)
             \<and> estimateSize x ''custom'' (Some q2) = Fin (of_int k2) \<and> k1 \<le> k2"
    unfolding estimateSize_custom[OF nz(1)] estimateSize_custom[OF nz(2)] by blast
next
  assume x: "x < 2 ^ 40"
  have c100: "estimateSize x ''custom'' (Some 100) = estimateSize x ''high'' None"
    by (simp add: estimateSize_custom estimateSize_high custom_factor_100)
  show "estimateSize x ''custom'' (Some 100) = estimateSize x ''high'' None" by (rule c100)
  have e: "(2 * int x * (50 + 3 * 10) + 500) mod (2 * 500) \<noteq> 0"
  proof
    assume "(2 * int x * (50 + 3 * 10) + 500) mod (2 * 500) = 0"
    then have "1000 dvd 160 * int x + 500" by (simp add: mod_eq_0_iff_dvd)
    then obtain j where "160 * int x + 500 = 1000 * j" by (auto simp: dvd_def)
    then have "8 * int x + 25 = 50 * j" by linarith
    then have "odd (50 * j)" by (metis even_add even_mult_iff even_numeral odd_numeral)
    then show False by simp
  qed
  have "int x * (50 + 3 * 10) mod 500 \<noteq> 250"
  proof
    assume "int x * (50 + 3 * 10) mod 500 = 250"
    then have "(int x * 80) mod 500 = 250" by simp
    then have "int x * 80 = 500 * (int x * 80 div 500) + 250" by (metis mult_div_mod_eq)
    then have "8 * int x = 50 * (int x * 80 div 500) + 25" by linarith
    then have "odd (8 * int x)" by (metis even_add even_mult_iff even_numeral odd_numeral)
    then show False by simp
  qed
  then have "estimateSize x ''custom'' (Some 10) = spec_estimate_custom x 10"
    using x by (intro custom_exact(1)) simp_all
  then show "estimateSize x ''custom'' (Some 10) = spec_estimate_preset x (16 / 100)"
    by (simp add: spec_estimate_custom_def spec_estimate_preset_def)
  show "estimateSize x ''custom'' (Some 100) = spec_estimate_preset x (70 / 100)"
    if "x mod 10 \<noteq> 5" using high_exact(1)[OF x that, of None] by (simp add: c100)
  show "estimateSize x ''custom'' (Some 100) = spec_estimate_preset x (70 / 100)
          \<or> estimateSize x ''custom'' (Some 100)
               = Fin (of_int (exact_round (of_nat x * (70 / 100)) - 1))"
    using high_exact(2)[OF x, of None] by (simp add: c100)
qed

text \<open>An instance: one million bytes at the qualities 10, 55 and 100.\<close>

theorem custom_estimate_monotone_witness:
  "(\<exists>k1 k2. estimateSize 1000000 ''custom'' (Some 10) = Fin (of_int k1)
             \<and> estimateSize 1000000 ''custom'' (Some 55) = Fin (of_int k2) \<and> k1 \<le> k2)
   \<and> estimateSize 1000000 ''custom'' (Some 10) = spec_estimate_preset 1000000 (16 / 100)
   \<and> estimateSize 1000000 ''custom'' (Some 100) = spec_estimate_preset 1000000 (70 / 100)"
proof -
  have q: "10 \<le> (10::int) \<and> (10::int) \<le> 55 \<and> (55::int) \<le> 100" by simp
  have x: "(1000000::nat) < 2 ^ 40" by simp
  have m: "(1000000::nat) mod 10 \<noteq> 5" by simp
  note t = custom_estimate_monotone[of 10 55 1000000]
  from t q have "\<exists>k1 k2. estimateSize 1000000 ''custom'' (Some 10) = Fin (of_int k1)
             \<and> estimateSize 1000000 ''custom'' (Some 55) = Fin (of_int k2) \<and> k1 \<le> k2" by blast
  moreover from t x have "estimateSize 1000000 ''custom'' (Some 10) = spec_estimate_preset 1000000 (16 / 100)"
    by blast
  moreover from t x m have "estimateSize 1000000 ''custom'' (Some 100) = spec_estimate_preset 1000000 (70 / 100)"
    by blast
  ultimately show ?thesis by blast
qed

text \<open>
  C6 as stated fails at its upper end: 45 bytes at quality 100 are estimated at 31, whereas
  \<open>round (0.70 * 45) = 32\<close>.
\<close>

theorem custom_100_at_45:
  "estimateSize 45 ''custom'' (Some 100) = Fin 31 \<and> spec_estimate_preset 45 (70 / 100) = Fin 32"
  using Math_round_45_high exact_45_high
  by (simp add: estimateSize_custom custom_factor_100 spec_estimate_preset_def)

text \<open>
  C10, as amended. For a size below \<open>2 ^ 40\<close> bytes and a preset that is none of \<open>high\<close>,
  \<open>medium\<close>, \<open>low\<close> and not the name of a property that the table inherits from
  \<open>Object.prototype\<close>, the estimator returns the exactly rounded \<open>round (sourceBytes * 0.45)\<close>
  whenever its custom branch is not taken: when the preset is not \<open>custom\<close>, or the quality
  is absent, or the quality is 0.
\<close>

theorem fallback_is_medium:
  assumes "sourceBytes < 2 ^ 40"
    and "preset \<noteq> ''high''" "preset \<noteq> ''medium''" "preset \<noteq> ''low''"
    and "preset \<notin> set Object_prototype_keys"
    and "preset \<noteq> ''custom'' \<or> customQuality = None \<or> customQuality = Some 0"
  shows "estimateSize sourceBytes preset customQuality = spec_estimate_preset sourceBytes (45 / 100)"
  using assms by (rule fallback_exact)

text \<open>An instance: \<open>custom\<close> without a quality and with quality 0, and an unknown preset.\<close>

theorem fallback_is_medium_witness:
  "estimateSize 1000000 ''custom'' None = Fin 450000
   \<and> estimateSize 1000000 ''custom'' (Some 0) = Fin 450000
   \<and> estimateSize 1000000 ''lossless'' (Some 70) = Fin 450000"
proof -
  have k: "''custom'' \<notin> set Object_prototype_keys" "''lossless'' \<notin> set Object_prototype_keys"
    by (simp_all add: Object_prototype_keys_def)
  show ?thesis
    using fallback_is_medium[of 1000000 "''custom''" None]
      fallback_is_medium[of 1000000 "''custom''" "Some 0"]
      fallback_is_medium[of 1000000 "''lossless''" "Some 70"] k exact_450000
    by (simp add: spec_estimate_preset_def)
qed

text \<open>
  C10 as stated fails: for the preset \<open>constructor\<close>, which is outside \<open>high\<close>, \<open>medium\<close>, \<open>low\<close>,
  the lookup in the table finds the inherited \<open>Object.prototype.constructor\<close>, a function and
  therefore truthy, so the fallback factor is not used and the result is NaN; and at
  2251799813685261 bytes the fallback estimate is one more than the exactly rounded product.
\<close>

theorem inherited_key_gives_NaN:
  "estimateSize 100 ''constructor'' None = NaN
   \<and> ''constructor'' \<notin> {''high'', ''medium'', ''low''}
   \<and> spec_estimate_preset 100 (45 / 100) = Fin 45
   \<and> estimateSize 2251799813685261 ''custom'' None = Fin 1013309916158368
   \<and> spec_estimate_preset 2251799813685261 (45 / 100) = Fin 1013309916158367"
proof -
  have "exact_round (100 * (45 / 100)) = 45" by (rule exact_round_eqI) simp_all
  moreover have "estimateSize 2251799813685261 ''custom'' None = Fin 1013309916158368"
    using Math_round_big_medium estimateSize_fallback[of "''custom''" None 2251799813685261]
    by (simp add: Object_prototype_keys_def)
  ultimately show ?thesis
    using exact_big_medium
    by (simp add: estimateSize_def QUALITY_FACTORS_get_def QUALITY_FACTORS_def
          Object_prototype_keys_def or_default_def round_product_def spec_estimate_preset_def)
qed

section \<open>The compression ratio of the endpoint\<close>

lemma toFixed2_nearest: "\<exists>n. toFixed2 y = of_int n / 100 \<and> \<bar>of_int n - 100 * y\<bar> \<le> 1 / 2"
proof (cases "y < 0")
  case True
  define z where "z = - y * 100 + 1 / 2"
  define k where "k = \<lfloor>z\<rfloor>"
  have f: "of_int k \<le> z" "z < of_int k + 1" using floor_correct[of z] by (simp_all add: k_def)
  have m: "(of_int (- k) :: rat) = - of_int k" by simp
  have "\<bar>of_int (- k) - 100 * y\<bar> \<le> 1 / 2"
    unfolding m using f unfolding z_def by (intro abs_leI) linarith+
  moreover have "toFixed2 y = of_int (- k) / 100" using True by (simp add: toFixed2_def z_def k_def)
  ultimately show ?thesis by blast
next
  case False
  define z where "z = y * 100 + 1 / 2"
  define k where "k = \<lfloor>z\<rfloor>"
  have f: "of_int k \<le> z" "z < of_int k + 1" using floor_correct[of z] by (simp_all add: k_def)
  have "\<bar>of_int k - 100 * y\<bar> \<le> 1 / 2"
    using f unfolding z_def by (intro abs_leI) linarith+
  moreover have "toFixed2 y = of_int k / 100" using False by (simp add: toFixed2_def z_def k_def)
  ultimately show ?thesis by blast
qed

lemma abs_leD: "\<bar>a\<bar> \<le> b \<Longrightarrow> a \<le> b \<and> - a \<le> (b::rat)"
  by (simp add: abs_le_iff)

lemma ratio_error:
  fixes w :: rat
  assumes "0 \<le> w"
  shows "\<bar>fmul (fsub 1 (fl w)) 100 - (1 - w) * 100\<bar> \<le> 402 * ((1 + w) / 2 ^ 53)"
proof -
  define y1 where "y1 = fl w"
  define y2 where "y2 = fl (1 - y1)"
  define y3 where "y3 = fl (y2 * 100)"
  define E where "E = (1 + w) / 2 ^ 53"
  have E0: "0 \<le> E" using assms by (simp add: E_def)
  have "300 * E = 300 / 2 ^ 53 * (1 + w)" by (simp add: E_def)
  also have "\<dots> \<le> 1 * (1 + w)" using assms by (intro mult_right_mono) simp_all
  finally have E1: "300 * E \<le> 1 + w" by simp
  have "\<bar>w\<bar> \<le> 1 + w" using assms by simp
  then have "\<bar>y1 - w\<bar> \<le> E" unfolding y1_def E_def by (rule fl_err_le)
  note e1 = abs_leD[OF this]
  have "\<bar>1 - y1\<bar> \<le> 2 + 2 * w" using e1 E0 E1 assms by (intro abs_leI) linarith+
  then have "\<bar>y2 - (1 - y1)\<bar> \<le> (2 + 2 * w) / 2 ^ 53" unfolding y2_def by (rule fl_err_le)
  moreover have "(2 + 2 * w) / 2 ^ 53 = 2 * E" by (simp add: E_def)
  ultimately have "\<bar>y2 - (1 - y1)\<bar> \<le> 2 * E" by simp
  note e2 = abs_leD[OF this]
  have "\<bar>y2 * 100\<bar> \<le> 101 + 101 * w" using e1 e2 E0 E1 assms by (intro abs_leI) linarith+
  then have "\<bar>y3 - y2 * 100\<bar> \<le> (101 + 101 * w) / 2 ^ 53" unfolding y3_def by (rule fl_err_le)
  moreover have "(101 + 101 * w) / 2 ^ 53 = 101 * E" by (simp add: E_def)
  ultimately have "\<bar>y3 - y2 * 100\<bar> \<le> 101 * E" by simp
  note e3 = abs_leD[OF this]
  have "\<bar>y3 - (100 - 100 * w)\<bar> \<le> 402 * E" using e1 e2 e3 E0 assms by (intro abs_leI) linarith+
  moreover have "(1 - w) * 100 = 100 - 100 * w" by (simp add: algebra_simps)
  ultimately have "\<bar>y3 - (1 - w) * 100\<bar> \<le> 402 * E" by simp
  then show ?thesis by (simp add: fmul_def fsub_def y3_def y2_def y1_def E_def)
qed

lemma ratio_two_decimals:
  assumes "0 < s" "s < 2 ^ 32" "c < 2 ^ 32"
  shows "\<exists>n. route_compressionRatio c s = Fin (fl (of_int n / 100))
           \<and> \<bar>of_int n / 100 - (1 - of_nat c / of_nat s) * 100\<bar> \<le> (1 / 200 :: rat)"
proof -
  define S :: rat where "S = of_nat s"
  define C :: rat where "C = of_nat c"
  define w :: rat where "w = C / S"
  define y3 where "y3 = fmul (fsub 1 (fdiv (of_nat c) (of_nat s))) 100"
  have S1: "1 \<le> S" "0 < S" using assms(1) by (simp_all add: S_def)
  have C0: "0 \<le> C" by (simp add: C_def)
  have w0: "0 \<le> w" using S1 C0 by (simp add: w_def)
  have "s + c < 2 ^ 33" using assms(2,3) by simp
  then have "(of_nat (s + c) :: rat) < of_nat (2 ^ 33)" by (simp only: of_nat_less_iff)
  then have SC: "S + C \<le> 2 ^ 33" by (simp add: S_def C_def)
  have "1 + w = (S + C) / S" using S1 by (simp add: w_def field_simps)
  also have "\<dots> \<le> 2 ^ 33 / S" using SC S1 by (intro divide_right_mono) simp_all
  finally have w1: "1 + w \<le> 2 ^ 33 / S" .
  have "\<bar>y3 - (1 - w) * 100\<bar> \<le> 402 * ((1 + w) / 2 ^ 53)"
    unfolding y3_def fdiv_def w_def C_def S_def by (rule ratio_error[OF w0[unfolded w_def C_def S_def]])
  also have "\<dots> \<le> 402 * ((2 ^ 33 / S) / 2 ^ 53)"
    using w1 by (intro mult_left_mono divide_right_mono) simp_all
  also have "\<dots> \<le> (1 / 2500) / S" using S1 by (simp add: field_simps)
  finally have e: "\<bar>y3 - (1 - w) * 100\<bar> \<le> (1 / 2500) / S" .
  obtain n where n: "toFixed2 y3 = of_int n / 100" "\<bar>of_int n - 100 * y3\<bar> \<le> 1 / 2"
    using toFixed2_nearest[of y3] by blast
  define Z :: int where "Z = 10000 * (int s - int c)"
  have ZS: "10000 * (1 - w) = of_int Z / S" using S1 by (simp add: Z_def w_def S_def C_def field_simps)
  define d :: rat where "d = of_int n - of_int Z / S"
  define r :: rat where "r = (1 / 25) / S"
  have r0: "0 \<le> r" "r * S = 1 / 25" using S1 by (simp_all add: r_def)
  have e100: "\<bar>100 * y3 - of_int Z / S\<bar> \<le> r"
  proof -
    have eq: "100 * y3 - of_int Z / S = 100 * (y3 - (1 - w) * 100)" using ZS by (simp add: algebra_simps)
    have "\<bar>100 * y3 - of_int Z / S\<bar> = 100 * \<bar>y3 - (1 - w) * 100\<bar>"
      unfolding eq by (simp only: abs_mult abs_numeral)
    also have "\<dots> \<le> 100 * ((1 / 2500) / S)" using e by (intro mult_left_mono) simp_all
    also have "\<dots> = r" by (simp add: r_def)
    finally show ?thesis .
  qed
  have dle: "\<bar>d\<bar> \<le> 1 / 2 + r"
    using abs_leD[OF n(2)] abs_leD[OF e100] unfolding d_def by (intro abs_leI) linarith+
  have dS: "d * S = of_int (n * int s - Z)" using S1 by (simp add: d_def S_def field_simps)
  have "\<bar>d * S\<bar> = \<bar>d\<bar> * S" using S1 by (simp add: abs_mult)
  also have "\<dots> \<le> (1 / 2 + r) * S" using dle S1 by (intro mult_right_mono) simp_all
  also have "\<dots> = S / 2 + 1 / 25" using r0(2) by (simp add: algebra_simps)
  finally have "\<bar>of_int (n * int s - Z) :: rat\<bar> \<le> S / 2 + 1 / 25" by (simp only: dS)
  then have "\<bar>of_int (2 * (n * int s - Z)) :: rat\<bar> \<le> S + 2 / 25" by (simp add: abs_mult)
  also have "\<dots> < of_int (int s + 1)" by (simp add: S_def)
  finally have "(of_int \<bar>2 * (n * int s - Z)\<bar> :: rat) < of_int (int s + 1)" by (simp only: of_int_abs)
  then have "\<bar>2 * (n * int s - Z)\<bar> < int s + 1" by (simp only: of_int_less_iff)
  then have "\<bar>2 * (n * int s - Z)\<bar> \<le> int s" by simp
  then have le: "(of_int \<bar>2 * (n * int s - Z)\<bar> :: rat) \<le> of_int (int s)" by (simp only: of_int_le_iff)
  have "2 * \<bar>d * S\<bar> = \<bar>of_int (2 * (n * int s - Z)) :: rat\<bar>"
    unfolding dS by (simp only: of_int_mult of_int_numeral abs_mult abs_numeral)
  also have "\<dots> = of_int \<bar>2 * (n * int s - Z)\<bar>" by (simp only: of_int_abs)
  also have "\<dots> \<le> of_int (int s)" by (rule le)
  also have "\<dots> = S" by (simp add: S_def)
  finally have "2 * \<bar>d * S\<bar> \<le> S" .
  moreover have "\<bar>d * S\<bar> = \<bar>d\<bar> * S" using S1 by (simp add: abs_mult)
  ultimately have "2 * (\<bar>d\<bar> * S) \<le> 1 * S" by simp
  then have "(2 * \<bar>d\<bar>) * S \<le> 1 * S" by (simp only: mult.assoc)
  then have "2 * \<bar>d\<bar> \<le> 1" using S1(2) by (simp only: mult_le_cancel_right_pos)
  then have dh: "\<bar>d\<bar> \<le> 1 / 2" by simp
  have a: "(1 - w) * 100 = (of_int Z / S) / 100" unfolding ZS[symmetric] by simp
  have b: "of_int n / 100 - (1 - w) * 100 = d / 100" unfolding a d_def by (simp only: diff_divide_distrib)
  have "\<bar>of_int n / 100 - (1 - w) * 100\<bar> = \<bar>d\<bar> / 100"
    unfolding b by (simp only: abs_divide abs_numeral)
  also have "\<dots> \<le> (1 / 2) / 100" using dh by (intro divide_right_mono) simp_all
  finally have fin: "\<bar>of_int n / 100 - (1 - of_nat c / of_nat s) * 100\<bar> \<le> (1 / 200 :: rat)"
    unfolding w_def C_def S_def by simp
  have "route_compressionRatio c s = Fin (fl (toFixed2 y3))"
    using assms(1) by (simp add: route_compressionRatio_def parseFloat_dec_def y3_def)
  then have "route_compressionRatio c s = Fin (fl (of_int n / 100))" by (simp only: n(1))
  with fin show ?thesis by blast
qed

lemma POST_ratio:
  assumes "POST lib (Returns fd) = SuccessResponse b"
  shows "b_compressionRatio b
           = route_compressionRatio (c_size (b_compressed b)) (o_size (b_original b))"
  using assms
  by (auto simp: POST_def compress_file_def success_def server_error_def
           split: option.splits outcome.splits prod.splits)

lemma nearest_hundredth:
  fixes v :: rat
  assumes "\<bar>of_int n / 100 - v\<bar> \<le> 1 / 200"
  shows "(frac (v * 100) \<noteq> 1 / 2 \<longrightarrow> n = \<lfloor>v * 100 + 1 / 2\<rfloor>)
       \<and> (n = \<lfloor>v * 100 + 1 / 2\<rfloor> \<or> n = \<lfloor>v * 100 + 1 / 2\<rfloor> - 1)"
proof -
  define x where "x = v * 100"
  define f where "f = \<lfloor>x\<rfloor>"
  define t where "t = x - of_int f"
  have t: "0 \<le> t" "t < 1" using floor_correct[of x] by (simp_all add: t_def f_def)
  have fr: "frac x = t" by (simp add: frac_def t_def f_def)
  have vx: "v = x / 100" by (simp add: x_def)
  have eq: "of_int n / 100 - v = (of_int n - x) / 100" unfolding vx by (simp only: diff_divide_distrib)
  have "\<bar>(of_int n - x) / 100\<bar> \<le> 1 / 200" using assms by (simp only: eq)
  then have "\<bar>of_int n - x\<bar> / 100 \<le> 1 / 200" by (simp only: abs_divide abs_numeral)
  then have "\<bar>of_int n - x\<bar> \<le> 1 / 2" by simp
  note d = abs_leD[OF this]
  define k where "k = n - f"
  have kx: "of_int n - x = of_int k - t" by (simp add: k_def t_def)
  have k1: "(of_int k :: rat) \<le> t + 1 / 2" "t - 1 / 2 \<le> of_int k" using d unfolding kx by linarith+
  have "(of_int k :: rat) < of_int 2" using k1 t by simp
  then have "k < 2" by (simp only: of_int_less_iff)
  have "(of_int (-1) :: rat) < of_int k" using k1 t by simp
  then have "-1 < k" by (simp only: of_int_less_iff)
  have xs: "x + 1 / 2 = of_int f + (t + 1 / 2)" by (simp add: t_def)
  show ?thesis
  proof (cases "t < 1 / 2")
    case True
    have "(of_int k :: rat) < of_int 1" using k1 True by simp
    then have "k < 1" by (simp only: of_int_less_iff)
    with \<open>-1 < k\<close> have "k = 0" by simp
    moreover have "\<lfloor>x + 1 / 2\<rfloor> = f" unfolding xs using True t by (intro floor_unique) simp_all
    ultimately show ?thesis by (simp add: k_def x_def)
  next
    case False
    have fl1: "\<lfloor>x + 1 / 2\<rfloor> = f + 1" unfolding xs using False t by (intro floor_unique) simp_all
    have a: "n = f \<or> n = f + 1" using \<open>k < 2\<close> \<open>-1 < k\<close> by (auto simp: k_def)
    have b: "n = f + 1" if "t \<noteq> 1 / 2"
    proof -
      have "1 / 2 < t" using False that by simp
      then have "(of_int 0 :: rat) < of_int k" using k1 by simp
      then have "0 < k" by (simp only: of_int_less_iff)
      with \<open>k < 2\<close> show ?thesis by (simp add: k_def)
    qed
    show ?thesis using a b fl1 fr by (auto simp: x_def)
  qed
qed

lemma ratio_nearest:
  assumes "0 < s" "s < 2 ^ 32" "c < 2 ^ 32"
  shows "(frac ((1 - of_nat c / of_nat s) * 100 * 100) \<noteq> (1 / 2 :: rat) \<longrightarrow>
            route_compressionRatio c s = Fin (fl (spec_compressionRatio c s)))
       \<and> (route_compressionRatio c s = Fin (fl (spec_compressionRatio c s))
          \<or> route_compressionRatio c s = Fin (fl (spec_compressionRatio c s - 1 / 100)))"
proof -
  obtain n where n: "route_compressionRatio c s = Fin (fl (of_int n / 100))"
      "\<bar>of_int n / 100 - (1 - of_nat c / of_nat s) * 100\<bar> \<le> (1 / 200 :: rat)"
    using ratio_two_decimals[OF assms] by blast
  define k where "k = \<lfloor>(1 - of_nat c / of_nat s) * 100 * 100 + 1 / (2 :: rat)\<rfloor>"
  have sp: "spec_compressionRatio c s = of_int k / 100" by (simp add: spec_compressionRatio_def k_def)
  have m: "of_int k / 100 - 1 / 100 = (of_int (k - 1) :: rat) / 100" by (simp add: diff_divide_distrib)
  note h = nearest_hundredth[OF n(2), folded k_def]
  show ?thesis unfolding sp m n(1) using h by auto
qed

lemma POST_sizes:
  assumes "POST lib (Returns (form_of req)) = SuccessResponse b"
  shows "o_size (b_original b) = file_size (req_file req)"
  using assms
  by (auto simp: POST_def compress_file_def success_def server_error_def form_of_def file_size_def
           split: option.splits outcome.splits prod.splits)

lemma endpoint_done:
  assumes "status (fst (compressImage (endpoint lib) n q fmt img evs)) = Done"
  shows "\<exists>b. POST lib (Returns (form_of \<lparr>req_file = img_file img, req_quality = q, req_format = fmt\<rparr>))
               = SuccessResponse b
           \<and> compressed (fst (compressImage (endpoint lib) n q fmt img evs)) = Some (b_compressed b)
           \<and> compressionRatio (fst (compressImage (endpoint lib) n q fmt img evs))
               = (case b_compressionRatio b of Fin x \<Rightarrow> Some (Fin x) | _ \<Rightarrow> None)"
proof (cases "POST lib (Returns (form_of \<lparr>req_file = img_file img, req_quality = q, req_format = fmt\<rparr>))")
  case (ErrorResponse code m)
  then have "status (fst (compressImage (endpoint lib) n q fmt img evs)) = Error"
    by (simp add: compressImage_eq endpoint_def over_http_def settle_def caught_def)
  with assms show ?thesis by simp
next
  case (SuccessResponse b)
  then show ?thesis
    by (simp add: compressImage_eq endpoint_def over_http_def settle_def json_body_def)
qed

lemma fl_153_160: "fl (153 / 160) = 4306567143673037 / 4503599627370496"
  using fl_eqI[of "-1" "153 / 160" "8613134287346074"] by simp

lemma fl_rest_153_160: "fl (197032483697459 / 4503599627370496) = 197032483697459 / 4503599627370496"
  using fl_eqI[of "-5" "197032483697459 / 4503599627370496" "6305039478318688"] by simp

lemma fl_percent_153_160: "fl (4925812092436475 / 1125899906842624) = 4925812092436475 / 1125899906842624"
  using fl_eqI[of 2 "4925812092436475 / 1125899906842624" "4925812092436475"] by simp

lemma toFixed2_153_160: "toFixed2 (4925812092436475 / 1125899906842624) = 437 / 100"
proof -
  have "\<lfloor>(4925812092436475 / 1125899906842624 :: rat) * 100 + 1 / 2\<rfloor> = 437"
    by (intro floor_unique) simp_all
  then show ?thesis unfolding toFixed2_def by simp
qed

lemma ratio_153_160: "route_compressionRatio 153 160 = Fin (fl (437 / 100))"
proof -
  have a: "fdiv (of_nat 153) (of_nat 160) = 4306567143673037 / 4503599627370496"
    by (simp add: fdiv_def fl_153_160)
  have b: "fsub 1 (4306567143673037 / 4503599627370496) = 197032483697459 / 4503599627370496"
    by (simp add: fsub_def fl_rest_153_160)
  have c: "fmul (197032483697459 / 4503599627370496) 100 = 4925812092436475 / 1125899906842624"
    by (simp add: fmul_def fl_percent_153_160)
  show ?thesis
    unfolding route_compressionRatio_def a b c toFixed2_153_160 parseFloat_dec_def by simp
qed

lemma fl_437_100: "fl (437 / 100) = 4920182592902267 / 1125899906842624"
  using fl_eqI[of 2 "437 / 100" "4920182592902267"] by simp

lemma fl_219_50: "fl (219 / 50) = 4931441591970693 / 1125899906842624"
  using fl_eqI[of 2 "219 / 50" "4931441591970693"] by simp

lemma spec_ratio_153_160: "spec_compressionRatio 153 160 = 438 / 100"
proof -
  have "\<lfloor>(1 - (of_nat 153 :: rat) / of_nat 160) * 100 * 100 + 1 / 2\<rfloor> = 438"
    by (intro floor_unique) simp_all
  then show ?thesis unfolding spec_compressionRatio_def by simp
qed

lemma spec_ratio_4_6: "spec_compressionRatio 4 6 = 3333 / 100"
proof -
  have "\<lfloor>(1 - (of_nat 4 :: rat) / of_nat 6) * 100 * 100 + 1 / 2\<rfloor> = 3333"
    by (intro floor_unique) simp_all
  then show ?thesis unfolding spec_compressionRatio_def by simp
qed

lemma no_tie_4_6: "frac ((1 - of_nat 4 / of_nat 6) * 100 * 100) \<noteq> (1 / 2 :: rat)"
proof -
  have "\<lfloor>(1 - (of_nat 4 :: rat) / of_nat 6) * 100 * 100\<rfloor> = 3333"
    by (intro floor_unique) simp_all
  then show ?thesis unfolding frac_def by simp
qed

lemma trimmed_upload:
  "fst (compressImage (endpoint (trimming_library k)) n q ''png'' (upload_of i f) evs)
     = (upload_of i f)\<lparr>status := Done,
          original := Some \<lparr>o_name = file_name f, o_size = length (file_content f),
                            o_width = 1, o_height = 1, o_format = ''gif''\<rparr>,
          compressed := Some \<lparr>c_size = length (take k (file_content f)), c_width = 1, c_height = 1,
                              c_format = ''png'',
                              c_base64 = ''data:image/png;base64,'' @ take k (file_content f)\<rparr>,
          compressionRatio :=
            (case route_compressionRatio (length (take k (file_content f))) (length (file_content f)) of
               Fin x \<Rightarrow> Some (Fin x) | _ \<Rightarrow> None)\<rparr>"
  by (simp add: compressImage_eq endpoint_def over_http_def POST_def form_of_def compress_file_def
        trimming_library_def gif_metadata_def choose_encoder_def resolve_format_def or_string_def
        or_nat_def success_def json_body_def settle_def upload_of_def new_image_def)

lemma fl_quotient_large:
  "fl (522851995310 / 969231616109) = 1214733409492507 / 2251799813685248"
  using fl_eqI[of "-1" "522851995310 / 969231616109" "4858933637970028"] by simp

lemma fl_rest_large:
  "fl (1037066404192741 / 2251799813685248) = 1037066404192741 / 2251799813685248"
  using fl_eqI[of "-2" "1037066404192741 / 2251799813685248" "8296531233541928"] by simp

lemma fl_percent_large:
  "fl (25926660104818525 / 562949953421312) = 6481665026204631 / 140737488355328"
  using fl_eqI[of 5 "25926660104818525 / 562949953421312" "6481665026204631"] by simp

lemma toFixed2_large: "toFixed2 (6481665026204631 / 140737488355328) = 4605 / 100"
proof -
  have "\<lfloor>(6481665026204631 / 140737488355328 :: rat) * 100 + 1 / 2\<rfloor> = 4605"
    by (intro floor_unique) simp_all
  then show ?thesis unfolding toFixed2_def by simp
qed

lemma ratio_large:
  "route_compressionRatio 522851995310 969231616109 = Fin (fl (4605 / 100))"
proof -
  have a: "fdiv (of_nat 522851995310) (of_nat 969231616109) = 1214733409492507 / 2251799813685248"
    by (simp add: fdiv_def fl_quotient_large)
  have b: "fsub 1 (1214733409492507 / 2251799813685248) = 1037066404192741 / 2251799813685248"
    by (simp add: fsub_def fl_rest_large)
  have c: "fmul (1037066404192741 / 2251799813685248) 100 = 6481665026204631 / 140737488355328"
    by (simp add: fmul_def fl_percent_large)
  show ?thesis
    unfolding route_compressionRatio_def a b c toFixed2_large parseFloat_dec_def by simp
qed

lemma spec_ratio_large: "spec_compressionRatio 522851995310 969231616109 = 4606 / 100"
proof -
  have "\<lfloor>(1 - (of_nat 522851995310 :: rat) / of_nat 969231616109) * 100 * 100 + 1 / 2\<rfloor> = 4606"
    by (intro floor_unique) simp_all
  then show ?thesis unfolding spec_compressionRatio_def by simp
qed

lemma no_tie_large:
  "frac ((1 - of_nat 522851995310 / of_nat 969231616109) * 100 * 100) \<noteq> (1 / 2 :: rat)"
proof -
  have "\<lfloor>(1 - (of_nat 522851995310 :: rat) / of_nat 969231616109) * 100 * 100\<rfloor> = 4605"
    by (intro floor_unique) simp_all
  then show ?thesis unfolding frac_def by simp
qed

lemma fl_921_20: "fl (921 / 20) = 3240480669381427 / 70368744177664"
  using fl_eqI[of 5 "921 / 20" "6480961338762854"] by simp

lemma fl_2303_50: "fl (2303 / 50) = 810296089205801 / 17592186044416"
  using fl_eqI[of 5 "2303 / 50" "6482368713646408"] by simp

text \<open>
  C8, as amended. A record whose \<open>originalSize\<close> is the size of its file (as \<open>onDrop\<close> makes it) is
  compressed through the endpoint; the call succeeds, the source has at least one byte and
  both sizes are below \<open>2 ^ 32\<close>. Then the ratio stored on the record is a double nearest
  to a number of two decimals, and that number is the exact value
  \<open>(1 - compressedBytes / sourceBytes) * 100\<close> rounded to two decimals whenever the exact
  value does not lie halfway between two hundredths; when it does, the number is that
  rounded value or the hundredth below it, because the endpoint computes in doubles.
\<close>

theorem compressionRatio_two_decimals:
  assumes "r = fst (compressImage (endpoint lib) n q fmt img evs)"
    and "status r = Done"
    and "compressed r = Some c"
    and "originalSize img = file_size (img_file img)"
    and "0 < originalSize img" "originalSize img < 2 ^ 32" "c_size c < 2 ^ 32"
  shows "(frac ((1 - of_nat (c_size c) / of_nat (originalSize img)) * 100 * 100) \<noteq> (1 / 2 :: rat) \<longrightarrow>
            compressionRatio r = Some (Fin (fl (spec_compressionRatio (c_size c) (originalSize img)))))
       \<and> (compressionRatio r = Some (Fin (fl (spec_compressionRatio (c_size c) (originalSize img))))
          \<or> compressionRatio r
               = Some (Fin (fl (spec_compressionRatio (c_size c) (originalSize img) - 1 / 100))))"
proof -
  obtain b where b: "POST lib (Returns (form_of \<lparr>req_file = img_file img, req_quality = q, req_format = fmt\<rparr>))
               = SuccessResponse b"
      "compressed r = Some (b_compressed b)"
      "compressionRatio r = (case b_compressionRatio b of Fin x \<Rightarrow> Some (Fin x) | _ \<Rightarrow> None)"
    using endpoint_done[OF assms(2)[unfolded assms(1)]] unfolding assms(1) by blast
  have c: "c = b_compressed b" using b(2) assms(3) by simp
  have o: "o_size (b_original b) = originalSize img"
    using POST_sizes[OF b(1)] assms(4) by simp
  have rt: "b_compressionRatio b = route_compressionRatio (c_size c) (originalSize img)"
    using POST_ratio[OF b(1)] by (simp add: c o)
  note h = ratio_nearest[OF assms(5-7)]
  show ?thesis
  proof (intro conjI impI)
    assume "frac ((1 - of_nat (c_size c) / of_nat (originalSize img)) * 100 * 100) \<noteq> (1 / 2 :: rat)"
    with h have "route_compressionRatio (c_size c) (originalSize img)
        = Fin (fl (spec_compressionRatio (c_size c) (originalSize img)))" by blast
    then show "compressionRatio r = Some (Fin (fl (spec_compressionRatio (c_size c) (originalSize img))))"
      by (simp add: b(3) rt)
  next
    from h have "route_compressionRatio (c_size c) (originalSize img)
          = Fin (fl (spec_compressionRatio (c_size c) (originalSize img)))
        \<or> route_compressionRatio (c_size c) (originalSize img)
          = Fin (fl (spec_compressionRatio (c_size c) (originalSize img) - 1 / 100))" by blast
    then show "compressionRatio r = Some (Fin (fl (spec_compressionRatio (c_size c) (originalSize img))))
          \<or> compressionRatio r
               = Some (Fin (fl (spec_compressionRatio (c_size c) (originalSize img) - 1 / 100)))"
      by (auto simp: b(3) rt)
  qed
qed

text \<open>An instance: the upload of six bytes, compressed to four, gets the ratio 33.33.\<close>

theorem compressionRatio_two_decimals_witness:
  "status (fst (compressImage (endpoint (trimming_library 4)) 0 70 ''png'' (upload_of ''a'' gif_file) [])) = Done
   \<and> originalSize (upload_of ''a'' gif_file) = 6
   \<and> map_option c_size
        (compressed (fst (compressImage (endpoint (trimming_library 4)) 0 70 ''png'' (upload_of ''a'' gif_file) [])))
       = Some 4
   \<and> compressionRatio (fst (compressImage (endpoint (trimming_library 4)) 0 70 ''png'' (upload_of ''a'' gif_file) []))
       = Some (Fin (fl (3333 / 100)))"
proof -
  define r where "r = fst (compressImage (endpoint (trimming_library 4)) 0 70 ''png'' (upload_of ''a'' gif_file) [])"
  define c where "c = \<lparr>c_size = 4, c_width = 1, c_height = 1, c_format = ''png'',
                        c_base64 = ''data:image/png;base64,GIF8''\<rparr>"
  have st: "status r = Done" unfolding r_def trimmed_upload by simp
  have cm: "compressed r = Some c" unfolding r_def trimmed_upload by (simp add: gif_file_def c_def)
  have os: "originalSize (upload_of ''a'' gif_file) = 6"
    by (simp add: upload_of_def new_image_def file_size_def gif_file_def)
  have fs: "originalSize (upload_of ''a'' gif_file) = file_size (img_file (upload_of ''a'' gif_file))"
    by (simp add: upload_of_def new_image_def)
  have cs: "c_size c = 4" by (simp add: c_def)
  have p: "0 < originalSize (upload_of ''a'' gif_file)" "originalSize (upload_of ''a'' gif_file) < 2 ^ 32"
      "c_size c < 2 ^ 32"
    by (simp_all add: os cs)
  have "frac ((1 - of_nat 4 / of_nat 6) * 100 * 100) \<noteq> (1 / 2 :: rat) \<longrightarrow>
          compressionRatio r = Some (Fin (fl (spec_compressionRatio 4 6)))"
    using compressionRatio_two_decimals[OF r_def st cm fs p] unfolding os cs by blast
  then have "compressionRatio r = Some (Fin (fl (3333 / 100)))"
    using no_tie_4_6 unfolding spec_ratio_4_6 by blast
  with st cm os cs show ?thesis unfolding r_def by simp
qed

text \<open>
  C8 as it is worded fails: an upload of 160 bytes compressed to 153 saves exactly 4.375
  per cent, which rounds to 4.38; the endpoint computes 4.374999999999996 and reports
  4.37, and that is the ratio the record gets. For sizes near \<open>2 ^ 40\<close> bytes the
  endpoint's ratio differs from the exactly rounded one even where the exact value is no
  tie.
\<close>

theorem compressionRatio_not_exactly_rounded:
  "status (fst (compressImage (endpoint (trimming_library 153)) 0 70 ''png'' (upload_of ''p'' bytes_160) [])) = Done
   \<and> originalSize (upload_of ''p'' bytes_160) = 160
   \<and> map_option c_size
        (compressed (fst (compressImage (endpoint (trimming_library 153)) 0 70 ''png'' (upload_of ''p'' bytes_160) [])))
       = Some 153
   \<and> compressionRatio (fst (compressImage (endpoint (trimming_library 153)) 0 70 ''png'' (upload_of ''p'' bytes_160) []))
       = Some (Fin (fl (437 / 100)))
   \<and> spec_compressionRatio 153 160 = 438 / 100
   \<and> fl (437 / 100) \<noteq> fl (438 / 100)
   \<and> route_compressionRatio 522851995310 969231616109 = Fin (fl (4605 / 100))
   \<and> spec_compressionRatio 522851995310 969231616109 = 4606 / 100
   \<and> frac ((1 - of_nat 522851995310 / of_nat 969231616109) * 100 * 100) \<noteq> (1 / 2 :: rat)
   \<and> fl (4605 / 100) \<noteq> fl (4606 / 100)"
proof -
  have l: "length (file_content bytes_160) = 160" "length (take 153 (file_content bytes_160)) = 153"
    by (simp_all add: bytes_160_def)
  have "originalSize (upload_of ''p'' bytes_160) = 160"
    by (simp add: upload_of_def new_image_def file_size_def l)
  moreover have "fl (437 / 100) \<noteq> fl (438 / 100)" by (simp add: fl_437_100 fl_219_50)
  moreover have "fl (4605 / 100) \<noteq> fl (4606 / 100)" by (simp add: fl_921_20 fl_2303_50)
  moreover note ratio_large spec_ratio_large no_tie_large
  ultimately show ?thesis
    unfolding trimmed_upload l ratio_153_160 spec_ratio_153_160 by simp
qed

section \<open>The total of the estimates\<close>

lemma finite_value_of_num_or_zero:
  "num_or_zero v = Fin x \<Longrightarrow> finite_value v = x"
  by (auto simp: num_or_zero_def finite_value_def split: option.splits number.splits)

lemma total_fold:
  assumes "\<forall>img \<in> set imgs. \<exists>n::nat. num_or_zero (estimatedSize img) = Fin (of_nat n)"
    and "of_nat a + sum_list (map (\<lambda>img. finite_value (estimatedSize img)) imgs) < 2 ^ 53"
  shows "foldl (\<lambda>acc img. num_add acc (num_or_zero (estimatedSize img))) (Fin (of_nat a)) imgs
           = Fin (of_nat a + sum_list (map (\<lambda>img. finite_value (estimatedSize img)) imgs))"
  using assms
proof (induction imgs arbitrary: a)
  case Nil
  then show ?case by simp
next
  case (Cons img rest)
  obtain n :: nat where n: "num_or_zero (estimatedSize img) = Fin (of_nat n)"
    using Cons.prems(1) by auto
  have fv: "finite_value (estimatedSize img) = of_nat n"
    using n by (rule finite_value_of_num_or_zero)
  have nn: "0 \<le> sum_list (map (\<lambda>img. finite_value (estimatedSize img)) rest)"
  proof (rule sum_list_nonneg)
    fix x assume "x \<in> set (map (\<lambda>img. finite_value (estimatedSize img)) rest)"
    then obtain i where i: "i \<in> set rest" "x = finite_value (estimatedSize i)" by auto
    then obtain m :: nat where "num_or_zero (estimatedSize i) = Fin (of_nat m)"
      using Cons.prems(1) by auto
    then have "x = of_nat m" using i(2) finite_value_of_num_or_zero by simp
    then show "0 \<le> x" by simp
  qed
  have b: "(of_nat (a + n) :: rat)
             + sum_list (map (\<lambda>img. finite_value (estimatedSize img)) rest) < 2 ^ 53"
    using Cons.prems(2) by (simp add: fv add.assoc)
  then have "(of_nat (a + n) :: rat) < of_nat (2 ^ 53)" using nn by simp
  then have "a + n < 2 ^ 53" by (simp only: of_nat_less_iff)
  then have "fl (of_nat (a + n)) = of_nat (a + n)" by (rule fl_of_nat)
  then have step: "num_add (Fin (of_nat a)) (num_or_zero (estimatedSize img)) = Fin (of_nat (a + n))"
    by (simp add: n fadd_def)
  have "foldl (\<lambda>acc img. num_add acc (num_or_zero (estimatedSize img))) (Fin (of_nat (a + n))) rest
      = Fin (of_nat (a + n) + sum_list (map (\<lambda>img. finite_value (estimatedSize img)) rest))"
    using Cons.prems(1) b by (intro Cons.IH) simp_all
  then show ?case by (simp add: step fv add.assoc)
qed

text \<open>
  C7, as amended. The total of the estimates is the sum of the estimates of all records,
  whatever their status, an absent estimate counting as 0; the measured sizes of \<open>done\<close>
  records do not enter it. (The estimates are whole numbers and their sum is below
  \<open>2 ^ 53\<close>, so that the additions in double precision are exact.)
\<close>

theorem total_is_sum_of_all_estimates:
  assumes "\<forall>img \<in> set imgs. \<exists>n::nat. num_or_zero (estimatedSize img) = Fin (of_nat n)"
    and "sum_list (map (\<lambda>img. finite_value (estimatedSize img)) imgs) < 2 ^ 53"
  shows "totalEstimatedSize imgs = Fin (sum_list (map (\<lambda>img. finite_value (estimatedSize img)) imgs))"
  using total_fold[of imgs 0] assms by (simp add: totalEstimatedSize_def)

text \<open>An instance: a \<open>done\<close> and a \<open>pending\<close> record, each with the estimate 9.\<close>

theorem total_is_sum_of_all_estimates_witness:
  "totalEstimatedSize [done_record, pending_record ''b''] = Fin 18
   \<and> map status [done_record, pending_record ''b''] = [Done, Pending]"
proof -
  have "num_or_zero (Some (Fin 9)) = Fin (of_nat 9)" by (simp add: num_or_zero_def)
  then have a: "\<forall>img \<in> set [done_record, pending_record ''b''].
      \<exists>n::nat. num_or_zero (estimatedSize img) = Fin (of_nat n)"
    unfolding done_record_def pending_record_def by auto
  have b: "sum_list (map (\<lambda>img. finite_value (estimatedSize img)) [done_record, pending_record ''b'']) = 18"
    by (simp add: done_record_def pending_record_def finite_value_def)
  show ?thesis
    using total_is_sum_of_all_estimates[OF a] b
    by (simp add: done_record_def pending_record_def)
qed

text \<open>
  C7 as stated fails: for a single \<open>done\<close> record with the estimate 9 and the measured
  size 6 the total is 9, where the claim gives 6.
\<close>

theorem total_counts_estimate_of_done_record:
  "totalEstimatedSize [done_record] = Fin 9 \<and> spec_totalEstimated [done_record] = 6"
  using fl_of_int[of 9]
  by (simp add: totalEstimatedSize_def spec_totalEstimated_def num_or_zero_def finite_value_def
        done_record_def fadd_def)

end
